theory Spec2Isabelle
  imports Complex_Main
begin

section \<open>Memory, faults and loops\<close>

text \<open>
  The program is \<^verbatim>\<open>assign1/mXv.c\<close>: five kernels for the product of an N x N matrix
  of doubles with a vector, and a driver that times one of them for N = 64, 128, ..., 32768.

  A kernel works on three separately allocated arrays, as \<^verbatim>\<open>run_programs\<close> allocates them:
  \<^verbatim>\<open>double** matrix\<close> (an array of row pointers), \<^verbatim>\<open>double* vector\<close> and
  \<^verbatim>\<open>double* result\<close>. They are the three fields of the record \<open>mem\<close>; the length of a
  list is the number of elements that were allocated. The element type is a parameter: the
  kernels only use \<open>0\<close>, \<open>+\<close> and \<open>*\<close>, in the order the source applies them, so nothing
  about the arithmetic of doubles is assumed unless a statement restricts the type.

  Reading or writing outside an array is undefined behaviour in C; here it ends the run
  with the fault \<open>OutOfBounds\<close>. The loop counters are C \<^verbatim>\<open>int\<close>s; the driver passes
  sizes up to 32768 and the tile edge 16, where no counter overflows, so they are natural
  numbers here.
\<close>

datatype fault = OutOfBounds | DivisionByZero | NonTermination

definition bindE :: "fault + 'a \<Rightarrow> ('a \<Rightarrow> fault + 'b) \<Rightarrow> fault + 'b" where
  "bindE m f = (case m of Inl e \<Rightarrow> Inl e | Inr x \<Rightarrow> f x)"

record 'a mem =
  matrix :: "'a list list"
  vector :: "'a list"
  result :: "'a list"

text \<open>
  \<^verbatim>\<open>for (int i = start; i < bound; i += step) body\<close>. With \<open>step = 0\<close> the counter
  never advances and the loop cannot end normally.
\<close>

function for_loop :: "nat \<Rightarrow> nat \<Rightarrow> nat \<Rightarrow> (nat \<Rightarrow> 's \<Rightarrow> fault + 's) \<Rightarrow> 's \<Rightarrow> fault + 's" where
  "for_loop i bound step body s =
     (if i < bound then
        (case body i s of
           Inl e \<Rightarrow> Inl e
         | Inr s' \<Rightarrow> if step = 0 then Inl NonTermination
                     else for_loop (i + step) bound step body s')
      else Inr s)"
  by pat_completeness auto
termination
  by (relation "measure (\<lambda>(i, bound, step, body, s). bound - i)") auto

declare for_loop.simps [simp del]

text \<open>Running a body over an explicit sequence of indices, stopping at the first fault.\<close>

fun for_each :: "'i list \<Rightarrow> ('i \<Rightarrow> 's \<Rightarrow> fault + 's) \<Rightarrow> 's \<Rightarrow> fault + 's" where
  "for_each [] body s = Inr s"
| "for_each (i # is) body s =
     (case body i s of Inl e \<Rightarrow> Inl e | Inr s' \<Rightarrow> for_each is body s')"

fun mapE :: "('i \<Rightarrow> fault + 'b) \<Rightarrow> 'i list \<Rightarrow> fault + 'b list" where
  "mapE f [] = Inr []"
| "mapE f (x # xs) =
     (case f x of Inl e \<Rightarrow> Inl e
      | Inr y \<Rightarrow> (case mapE f xs of Inl e \<Rightarrow> Inl e | Inr ys \<Rightarrow> Inr (y # ys)))"

section \<open>The kernels\<close>

text \<open>\<^verbatim>\<open>result[i] = 0.0;\<close>\<close>

definition zero_result :: "nat \<Rightarrow> 'a::zero mem \<Rightarrow> fault + 'a mem" where
  "zero_result i s =
     (if i < length (result s) then Inr (s\<lparr>result := (result s)[i := 0]\<rparr>)
      else Inl OutOfBounds)"

text \<open>\<^verbatim>\<open>result[i] += matrix[i][j] * vector[j];\<close>\<close>

definition accumulate :: "nat \<Rightarrow> nat \<Rightarrow> 'a::{plus,times} mem \<Rightarrow> fault + 'a mem" where
  "accumulate i j s =
     (if i < length (result s) \<and> i < length (matrix s) \<and> j < length (matrix s ! i)
         \<and> j < length (vector s)
      then Inr (s\<lparr>result := (result s)[i := result s ! i + matrix s ! i ! j * vector s ! j]\<rparr>)
      else Inl OutOfBounds)"

text \<open>The body of the row loop of the three untiled kernels (lines 51-54, 62-65, 74-77).\<close>

definition row_product :: "nat \<Rightarrow> nat \<Rightarrow> 'a::{zero,plus,times} mem \<Rightarrow> fault + 'a mem" where
  "row_product cols i s = bindE (zero_result i s) (for_loop 0 cols 1 (accumulate i))"

definition sequential_mvm :: "'a::{zero,plus,times} mem \<Rightarrow> nat \<Rightarrow> nat \<Rightarrow> fault + 'a mem" where
  "sequential_mvm s rows cols = for_loop 0 rows 1 (row_product cols) s"

text \<open>
  \<^verbatim>\<open>openmp_mvm\<close> is the same loop under \<^verbatim>\<open>#pragma omp parallel for\<close>. The definition
  runs the iterations in program order (one thread); lemma \<open>row_loop_any_order\<close> below shows
  that the order in which the row iterations run does not change the outcome.
\<close>

definition openmp_mvm :: "'a::{zero,plus,times} mem \<Rightarrow> nat \<Rightarrow> nat \<Rightarrow> fault + 'a mem" where
  "openmp_mvm s rows cols = for_loop 0 rows 1 (row_product cols) s"

text \<open>
  The row range of a process (lines 71-72 and 98-99):
  \<^verbatim>\<open>start = (rows / size) * rank; end = (rank == size - 1) ? rows : (rows / size) * (rank + 1);\<close>
  The source's parameter \<^verbatim>\<open>size\<close> (the number of processes) is \<open>nprocs\<close> here. For the
  ranks \<open>0 \<le> rank\<close> that MPI hands out, \<^verbatim>\<open>rank == size - 1\<close> is \<open>rank + 1 = nprocs\<close>.
\<close>

definition part_start :: "nat \<Rightarrow> nat \<Rightarrow> nat \<Rightarrow> nat" where
  "part_start rows nprocs rank = (rows div nprocs) * rank"

definition part_end :: "nat \<Rightarrow> nat \<Rightarrow> nat \<Rightarrow> nat" where
  "part_end rows nprocs rank =
     (if rank + 1 = nprocs then rows else (rows div nprocs) * (rank + 1))"

text \<open>
  \<^verbatim>\<open>MPI_Allgather(MPI_IN_PLACE, 0, MPI_DATATYPE_NULL, result, recvcount, MPI_DOUBLE, MPI_COMM_WORLD)\<close>
  is a call into the MPI library, modelled after the MPI standard: \<open>bufs\<close> holds the receive
  buffer of every rank as it enters the collective; afterwards block \<open>q\<close> (the \<open>recvcount\<close>
  elements from \<open>q * recvcount\<close>) of every rank's buffer is block \<open>q\<close> of rank \<open>q\<close>'s buffer, and
  the elements behind the last block keep the rank's own values. A receive buffer too short
  for the blocks is overrun; a rank outside the communicator takes no part in the collective.
\<close>

definition MPI_Allgather_IN_PLACE :: "'a list list \<Rightarrow> nat \<Rightarrow> nat \<Rightarrow> fault + 'a list" where
  "MPI_Allgather_IN_PLACE bufs recvcount rank =
     (if rank < length bufs \<and> list_all (\<lambda>b. length bufs * recvcount \<le> length b) bufs
      then Inr (concat (map (\<lambda>q. take recvcount (drop (q * recvcount) (bufs ! q)))
                         [0..<length bufs])
                @ drop (length bufs * recvcount) (bufs ! rank))
      else Inl OutOfBounds)"

text \<open>Lines 71-78 of \<^verbatim>\<open>mpi_mvm\<close>: what one process computes before the collective.\<close>

definition mpi_mvm_rows ::
  "'a::{zero,plus,times} mem \<Rightarrow> nat \<Rightarrow> nat \<Rightarrow> nat \<Rightarrow> nat \<Rightarrow> fault + 'a mem" where
  "mpi_mvm_rows s rows cols rank nprocs =
     (if nprocs = 0 then Inl DivisionByZero
      else for_loop (part_start rows nprocs rank) (part_end rows nprocs rank) 1
             (row_product cols) s)"

text \<open>
  \<^verbatim>\<open>mpi_mvm\<close> as one process runs it. \<open>peers\<close> are the result buffers with which the ranks
  of the communicator enter the all-gather (the entry of \<open>rank\<close> itself is replaced by the
  buffer the process has just computed).
\<close>

definition mpi_mvm ::
  "'a::{zero,plus,times} list list \<Rightarrow> 'a mem \<Rightarrow> nat \<Rightarrow> nat \<Rightarrow> nat \<Rightarrow> nat \<Rightarrow> fault + 'a mem" where
  "mpi_mvm peers s rows cols rank nprocs =
     bindE (mpi_mvm_rows s rows cols rank nprocs) (\<lambda>s'.
     bindE (MPI_Allgather_IN_PLACE (peers[rank := result s']) (rows div nprocs) rank) (\<lambda>r.
     Inr (s'\<lparr>result := r\<rparr>)))"

text \<open>
  All processes of the communicator running \<^verbatim>\<open>mpi_mvm\<close> together: \<open>ss ! rank\<close> is the
  memory of process \<open>rank\<close>, the number of processes is \<open>length ss\<close>, and the buffers that
  meet in the all-gather are the ones the processes computed.
\<close>

definition mpi_mvm_world ::
  "'a::{zero,plus,times} mem list \<Rightarrow> nat \<Rightarrow> nat \<Rightarrow> fault + 'a mem list" where
  "mpi_mvm_world ss rows cols =
     bindE (mapE (\<lambda>rank. mpi_mvm_rows (ss ! rank) rows cols rank (length ss)) [0..<length ss])
       (\<lambda>computed.
     mapE (\<lambda>rank. mpi_mvm (map result computed) (ss ! rank) rows cols rank (length ss))
       [0..<length ss])"

text \<open>
  The loop nest of the tiled kernels (lines 85-93 and 100-108). The body is a parameter, so
  that the same nest can run the kernel's statement or record which indices it visits; it
  receives the tile origin \<open>(i, j)\<close> and the element \<open>(ii, jj)\<close>. The rows run from
  \<open>start\<close> to \<open>stop\<close> (the source's \<^verbatim>\<open>end\<close>): the whole matrix in the shared-memory
  kernel, the row range of the process in the distributed one.
\<close>

definition tile_nest ::
  "nat \<Rightarrow> nat \<Rightarrow> nat \<Rightarrow> nat \<Rightarrow> (nat \<Rightarrow> nat \<Rightarrow> nat \<Rightarrow> nat \<Rightarrow> 's \<Rightarrow> fault + 's) \<Rightarrow> 's \<Rightarrow> fault + 's" where
  "tile_nest start stop cols tile_size body s =
     for_loop start stop tile_size (\<lambda>i.
       for_loop 0 cols tile_size (\<lambda>j.
         for_loop i (i + tile_size) 1 (\<lambda>ii.
           for_loop j (j + tile_size) 1 (\<lambda>jj. body i j ii jj)))) s"

text \<open>
  \<^verbatim>\<open>openmp_tiled_mvm\<close> as one thread runs it, the tiles in program order. This is the
  function in a build without OpenMP, where the pragma is ignored (\<^verbatim>\<open>get_time\<close> provides
  for that build with \<^verbatim>\<open>#ifdef _OPENMP\<close>), and in a run with one thread. With several
  threads \<^verbatim>\<open>#pragma omp parallel for collapse(2)\<close> hands tiles of one row band to
  different threads, which update the same \<^verbatim>\<open>result[ii]\<close> without synchronisation: a
  data race, after which the values in \<^verbatim>\<open>result\<close> are not determined by the source.
  The indices that the kernel reads and writes and the arrays it writes are the same under
  every schedule; what is said below about the values in \<^verbatim>\<open>result\<close> is about one thread.
\<close>

definition openmp_tiled_mvm ::
  "'a::{plus,times} mem \<Rightarrow> nat \<Rightarrow> nat \<Rightarrow> nat \<Rightarrow> fault + 'a mem" where
  "openmp_tiled_mvm s rows cols tile_size =
     tile_nest 0 rows cols tile_size (\<lambda>i j ii jj. accumulate ii jj) s"

text \<open>
  \<^verbatim>\<open>mpi_tiled_mvm\<close>: lines 98-108 are what one process computes, over its row range and
  all columns; line 109 is the same all-gather as in \<^verbatim>\<open>mpi_mvm\<close>.
\<close>

definition mpi_tiled_mvm_rows ::
  "'a::{plus,times} mem \<Rightarrow> nat \<Rightarrow> nat \<Rightarrow> nat \<Rightarrow> nat \<Rightarrow> nat \<Rightarrow> fault + 'a mem" where
  "mpi_tiled_mvm_rows s rows cols rank nprocs tile_size =
     (if nprocs = 0 then Inl DivisionByZero
      else tile_nest (part_start rows nprocs rank) (part_end rows nprocs rank) cols tile_size
             (\<lambda>i j ii jj. accumulate ii jj) s)"

definition mpi_tiled_mvm ::
  "'a::{plus,times} list list \<Rightarrow> 'a mem \<Rightarrow> nat \<Rightarrow> nat \<Rightarrow> nat \<Rightarrow> nat \<Rightarrow> nat \<Rightarrow> fault + 'a mem" where
  "mpi_tiled_mvm peers s rows cols rank nprocs tile_size =
     bindE (mpi_tiled_mvm_rows s rows cols rank nprocs tile_size) (\<lambda>s'.
     bindE (MPI_Allgather_IN_PLACE (peers[rank := result s']) (rows div nprocs) rank) (\<lambda>r.
     Inr (s'\<lparr>result := r\<rparr>)))"

text \<open>The index tuples \<open>(i, j, ii, jj)\<close> that the tiled nest of \<^verbatim>\<open>openmp_tiled_mvm\<close> visits, in order.\<close>

definition tiled_visits :: "nat \<Rightarrow> nat \<Rightarrow> nat \<Rightarrow> fault + (nat \<times> nat \<times> nat \<times> nat) list" where
  "tiled_visits rows cols tile_size =
     tile_nest 0 rows cols tile_size (\<lambda>i j ii jj tr. Inr (tr @ [(i, j, ii, jj)])) []"

text \<open>The arrays as \<^verbatim>\<open>run_programs\<close> allocates them for a \<open>rows\<close> x \<open>cols\<close> problem.\<close>

definition allocated :: "'a mem \<Rightarrow> nat \<Rightarrow> nat \<Rightarrow> bool" where
  "allocated s rows cols \<longleftrightarrow>
     length (matrix s) = rows \<and> list_all (\<lambda>row. length row = cols) (matrix s)
     \<and> length (vector s) = cols \<and> length (result s) = rows"

section \<open>The arithmetic of doubles\<close>

text \<open>
  A \<^verbatim>\<open>double\<close> is an IEEE 754 binary64 number, a real number with a significand of 53
  bits. The sum and the product of two doubles are the exact sum and product rounded to the
  nearest such number, and to the one with the even significand when two are equally near.
  \<open>round_double\<close> is that rounding: \<open>\<lfloor>log 2 \<bar>x\<bar>\<rfloor>\<close> is the exponent of \<open>x\<close>, \<open>ulp\<close> the
  distance between neighbouring doubles of this exponent, and \<open>x / ulp\<close> is rounded to an
  integer. The range of the exponent is not modelled: there is no overflow to infinity and
  there are no subnormal numbers, so the rounding is that of the machine for results of a
  magnitude between 2 to the power -1022 and 2 to the power 1024.

  The type \<open>double\<close> holds the value of a double as a real number; its \<open>+\<close> and \<open>*\<close> round.
  At this type the kernels above compute as the machine does when it rounds every product
  and every sum to a double.
\<close>

definition round_double :: "real \<Rightarrow> real" where
  "round_double x =
     (if x = 0 then 0
      else let ulp = 2 powr (of_int \<lfloor>log 2 \<bar>x\<bar>\<rfloor> - 52);
               q = x / ulp;
               f = \<lfloor>q\<rfloor>
           in (if q - of_int f < 1 / 2 then of_int f
               else if 1 / 2 < q - of_int f then of_int (f + 1)
               else if even f then of_int f else of_int (f + 1)) * ulp)"

datatype double = Double (value_of: real)

instantiation double :: "{zero,plus,times}"
begin

definition zero_double :: double where
  "zero_double = Double 0"

definition plus_double :: "double \<Rightarrow> double \<Rightarrow> double" where
  "plus_double x y = Double (round_double (value_of x + value_of y))"

definition times_double :: "double \<Rightarrow> double \<Rightarrow> double" where
  "times_double x y = Double (round_double (value_of x * value_of y))"

instance ..

end

section \<open>The driver\<close>

text \<open>
  The driver talks to the C library, the clock, the MPI runtime and two output streams.
  What the outside world answers is the record \<open>env\<close>: whether the \<open>k\<close>-th call of
  \<^verbatim>\<open>malloc\<close> succeeds and which values the fresh block happens to hold (it is not
  initialised), what the \<open>k\<close>-th call of \<^verbatim>\<open>rand\<close> returns, the constant
  \<^verbatim>\<open>RAND_MAX\<close> of the C library, what the \<open>k\<close>-th reading of the clock shows, the result
  buffers the ranks of the communicator bring to the all-gather of the run of size \<open>N\<close>,
  whether \<^verbatim>\<open>results.csv\<close> can be opened, the rank and the number of processes, and
  what \<^verbatim>\<open>scanf_s\<close> stores for a typed number that does not fit an \<^verbatim>\<open>int\<close>. What
  the program has done so far is the record \<open>io\<close>: how often it has called
  \<^verbatim>\<open>malloc\<close>, \<^verbatim>\<open>rand\<close> and the clock, the texts it has printed (one entry for each call of
  \<^verbatim>\<open>printf\<close>, without the newline) and the lines it has written to the report file.
  The doubles of the driver are real numbers. \<^verbatim>\<open>free\<close> has no effect that this model
  observes.
\<close>

definition MAX_SIZE :: nat where "MAX_SIZE = 32768"

definition TILE_SIZE :: nat where "TILE_SIZE = 16"

record env =
  malloc_ok :: "nat \<Rightarrow> bool"
  malloc_junk :: "nat \<Rightarrow> nat \<Rightarrow> real"
  rand_out :: "nat \<Rightarrow> nat"
  RAND_MAX :: nat
  wtime :: "nat \<Rightarrow> real"
  peer_results :: "nat \<Rightarrow> real list list"
  fopen_ok :: bool
  comm_rank :: nat
  comm_size :: nat
  int_overflow :: "int \<Rightarrow> int"

datatype csv_line = Header | Timing string nat real

record io =
  mallocs :: nat
  rands :: nat
  clocks :: nat
  stdout :: "string list"
  csv :: "csv_line list"

definition printf :: "string \<Rightarrow> io \<Rightarrow> io" where
  "printf line io = io\<lparr>stdout := stdout io @ [line]\<rparr>"

text \<open>\<^verbatim>\<open>malloc(n * sizeof(double))\<close>: \<open>None\<close> is the null pointer.\<close>

definition malloc :: "env \<Rightarrow> nat \<Rightarrow> io \<Rightarrow> real list option \<times> io" where
  "malloc env n io =
     (if malloc_ok env (mallocs io) then Some (map (malloc_junk env (mallocs io)) [0..<n]) else None,
      io\<lparr>mallocs := mallocs io + 1\<rparr>)"

text \<open>
  \<^verbatim>\<open>allocate_matrix\<close> (lines 11-25): the array of row pointers, then one block for each
  row; the first allocation that fails is reported and ends the function with the null
  pointer. \<open>allocate_rows\<close> is its loop over the rows, \<open>k\<close> of them still to allocate.
\<close>

fun allocate_rows :: "env \<Rightarrow> nat \<Rightarrow> nat \<Rightarrow> real list list \<Rightarrow> io \<Rightarrow> real list list option \<times> io" where
  "allocate_rows env 0 cols acc io = (Some acc, io)"
| "allocate_rows env (Suc k) cols acc io =
     (case malloc env cols io of
        (None, io') \<Rightarrow> (None, printf ''Memory allocation failed!'' io')
      | (Some row, io') \<Rightarrow> allocate_rows env k cols (acc @ [row]) io')"

definition allocate_matrix :: "env \<Rightarrow> nat \<Rightarrow> nat \<Rightarrow> io \<Rightarrow> real list list option \<times> io" where
  "allocate_matrix env rows cols io =
     (case malloc env rows io of
        (None, io') \<Rightarrow> (None, printf ''Memory allocation failed!'' io')
      | (Some pointers, io') \<Rightarrow> allocate_rows env rows cols [] io')"

text \<open>\<^verbatim>\<open>allocate_vector\<close> (lines 27-34).\<close>

definition allocate_vector :: "env \<Rightarrow> nat \<Rightarrow> io \<Rightarrow> real list option \<times> io" where
  "allocate_vector env n io =
     (case malloc env n io of
        (None, io') \<Rightarrow> (None, printf ''Memory allocation failed!'' io')
      | (Some v, io') \<Rightarrow> (Some v, io'))"

text \<open>
  \<^verbatim>\<open>fill_random\<close> (lines 37-46). \<open>random_unit\<close> is the expression
  \<^verbatim>\<open>(double)rand() / RAND_MAX\<close>; the two cell functions are the assignments
  \<^verbatim>\<open>matrix[i][j] = ...\<close> and \<^verbatim>\<open>vector[i] = ...\<close>.
\<close>

definition rand :: "env \<Rightarrow> io \<Rightarrow> nat \<times> io" where
  "rand env io = (rand_out env (rands io), io\<lparr>rands := rands io + 1\<rparr>)"

definition random_unit :: "env \<Rightarrow> io \<Rightarrow> real \<times> io" where
  "random_unit env io = (case rand env io of (r, io') \<Rightarrow> (real r / real (RAND_MAX env), io'))"

definition fill_matrix_cell :: "env \<Rightarrow> nat \<Rightarrow> nat \<Rightarrow> real mem \<times> io \<Rightarrow> fault + real mem \<times> io" where
  "fill_matrix_cell env i j = (\<lambda>(s, io).
     case random_unit env io of (x, io') \<Rightarrow>
       (if i < length (matrix s) \<and> j < length (matrix s ! i)
        then Inr (s\<lparr>matrix := (matrix s)[i := (matrix s ! i)[j := x]]\<rparr>, io')
        else Inl OutOfBounds))"

definition fill_vector_cell :: "env \<Rightarrow> nat \<Rightarrow> real mem \<times> io \<Rightarrow> fault + real mem \<times> io" where
  "fill_vector_cell env i = (\<lambda>(s, io).
     case random_unit env io of (x, io') \<Rightarrow>
       (if i < length (vector s) then Inr (s\<lparr>vector := (vector s)[i := x]\<rparr>, io')
        else Inl OutOfBounds))"

definition fill_random :: "env \<Rightarrow> real mem \<Rightarrow> nat \<Rightarrow> nat \<Rightarrow> io \<Rightarrow> fault + real mem \<times> io" where
  "fill_random env s rows cols io =
     bindE (for_loop 0 rows 1 (\<lambda>i. for_loop 0 cols 1 (\<lambda>j. fill_matrix_cell env i j)) (s, io))
       (for_loop 0 cols 1 (\<lambda>i. fill_vector_cell env i))"

text \<open>
  \<^verbatim>\<open>get_time\<close> (lines 113-119) reads the clock; \<open>fprintf\<close> appends one line to the report.
  \<open>timed\<close> is what every case of the \<^verbatim>\<open>switch\<close> does around its kernel: read the clock,
  run the kernel, read the clock again, write the record. The barriers around the two
  distributed kernels do nothing that one process observes. \<open>outcome\<close> is the kernel's
  run; a kernel that faults never reaches the \<^verbatim>\<open>fprintf\<close>.
\<close>

definition get_time :: "env \<Rightarrow> io \<Rightarrow> real \<times> io" where
  "get_time env io = (wtime env (clocks io), io\<lparr>clocks := clocks io + 1\<rparr>)"

definition fprintf :: "csv_line \<Rightarrow> io \<Rightarrow> io" where
  "fprintf line io = io\<lparr>csv := csv io @ [line]\<rparr>"

definition timed :: "env \<Rightarrow> string \<Rightarrow> nat \<Rightarrow> (fault + real mem) \<Rightarrow> io \<Rightarrow> fault + io" where
  "timed env label N outcome io =
     (case get_time env io of (start_time, io1) \<Rightarrow>
        (case outcome of
           Inl e \<Rightarrow> Inl e
         | Inr s' \<Rightarrow>
             (case get_time env io1 of (end_time, io2) \<Rightarrow>
                Inr (fprintf (Timing label N (end_time - start_time)) io2))))"

text \<open>
  \<^verbatim>\<open>run_programs\<close> (lines 122-190) in two parts. \<open>allocate_and_fill\<close> is lines 123-138:
  the three allocations, each with its early \<^verbatim>\<open>return\<close> (the value \<open>None\<close>), and the
  random fill. \<open>benchmark\<close> is the \<^verbatim>\<open>switch\<close> of lines 143-185.
\<close>

definition allocate_and_fill :: "env \<Rightarrow> nat \<Rightarrow> io \<Rightarrow> fault + real mem option \<times> io" where
  "allocate_and_fill env N io =
     (case allocate_matrix env N N io of
        (None, io1) \<Rightarrow> Inr (None, io1)
      | (Some m, io1) \<Rightarrow>
     (case allocate_vector env N io1 of
        (None, io2) \<Rightarrow> Inr (None, io2)
      | (Some v, io2) \<Rightarrow>
     (case allocate_vector env N io2 of
        (None, io3) \<Rightarrow> Inr (None, io3)
      | (Some r, io3) \<Rightarrow>
          bindE (fill_random env \<lparr>matrix = m, vector = v, result = r\<rparr> N N io3)
            (\<lambda>(s, io4). Inr (Some s, io4)))))"

definition benchmark :: "env \<Rightarrow> int \<Rightarrow> nat \<Rightarrow> nat \<Rightarrow> nat \<Rightarrow> real mem \<Rightarrow> io \<Rightarrow> fault + io" where
  "benchmark env program_type N rank nprocs s io =
     (if program_type = 1 then timed env ''Sequential'' N (sequential_mvm s N N) io
      else if program_type = 2 then timed env ''OpenMP'' N (openmp_mvm s N N) io
      else if program_type = 3 then
        timed env ''MPI'' N (mpi_mvm (peer_results env N) s N N rank nprocs) io
      else if program_type = 4 then
        timed env ''OpenMP Tiled'' N (openmp_tiled_mvm s N N TILE_SIZE) io
      else if program_type = 5 then
        timed env ''MPI Tiled'' N
          (mpi_tiled_mvm (peer_results env N) s N N rank nprocs TILE_SIZE) io
      else Inr io)"

definition run_programs :: "env \<Rightarrow> int \<Rightarrow> nat \<Rightarrow> nat \<Rightarrow> nat \<Rightarrow> io \<Rightarrow> fault + io" where
  "run_programs env program_type N rank nprocs io =
     bindE (allocate_and_fill env N io) (\<lambda>(allocated_mem, io').
       case allocated_mem of
         None \<Rightarrow> Inr io'
       | Some s \<Rightarrow> benchmark env program_type N rank nprocs s io')"

text \<open>
  The loop of \<^verbatim>\<open>main\<close> over the sizes (lines 223-225):
  \<^verbatim>\<open>for (int N = 64; N <= MAX_SIZE; N *= 2) run_programs(choice, N, rank, size, fp);\<close>
  It is entered with \<open>N = 64\<close>; from \<open>N = 0\<close> the doubling would not advance.
\<close>

function size_loop :: "env \<Rightarrow> int \<Rightarrow> nat \<Rightarrow> nat \<Rightarrow> nat \<Rightarrow> io \<Rightarrow> fault + io" where
  "size_loop env choice N rank nprocs io =
     (if N \<le> MAX_SIZE then
        (case run_programs env choice N rank nprocs io of
           Inl e \<Rightarrow> Inl e
         | Inr io' \<Rightarrow> if N = 0 then Inl NonTermination
                      else size_loop env choice (N * 2) rank nprocs io')
      else Inr io)"
  by pat_completeness auto
termination
  by (relation "measure (\<lambda>(env, choice, N, rank, nprocs, io). MAX_SIZE + 1 - N)") auto

declare size_loop.simps [simp del]

text \<open>
  Reading the selection (lines 207-212). Standard input is the string of the characters
  still to be read; behind its last character every read reports the end of the input.

  \<open>scanf_d\<close> is \<^verbatim>\<open>scanf_s("%d", &choice)\<close> after the C standard: white space is skipped,
  then an optional sign and a non-empty run of digits are converted. It returns 1 and
  assigns (\<open>Assigned\<close>), or returns 0 (\<open>NoMatch\<close>) when a character other than a digit
  follows, which stays unread, or when the input ends behind a sign; or it returns
  \<^verbatim>\<open>EOF\<close> when the input ends before any character of a number (\<open>EndOfFile\<close>).
  A number between \<^verbatim>\<open>INT_MIN\<close> and \<^verbatim>\<open>INT_MAX\<close> is stored as it is. C leaves the
  conversion of a number that does not fit undefined, and the libraries differ: what is
  stored then is the answer \<open>int_overflow\<close> of the environment (glibc stores the low 32
  bits of a number that fits a \<^verbatim>\<open>long\<close>, which is \<open>wrap_int\<close>).
\<close>

definition INT_MIN :: int where "INT_MIN = - 2147483648"

definition INT_MAX :: int where "INT_MAX = 2147483647"

definition wrap_int :: "int \<Rightarrow> int" where
  "wrap_int n = (n + 2147483648) mod 4294967296 - 2147483648"

datatype scanned = Assigned int | NoMatch | EndOfFile

definition isspace :: "char \<Rightarrow> bool" where
  "isspace c \<longleftrightarrow> c \<in> set [CHR '' '', CHR 0x09, CHR 0x0A, CHR 0x0B, CHR 0x0C, CHR 0x0D]"

definition isdigit :: "char \<Rightarrow> bool" where
  "isdigit c \<longleftrightarrow> (48::nat) \<le> of_char c \<and> of_char c \<le> (57::nat)"

definition decimal :: "string \<Rightarrow> int" where
  "decimal ds = foldl (\<lambda>n c. 10 * n + (of_char c - 48)) 0 ds"

definition scanf_d :: "env \<Rightarrow> string \<Rightarrow> scanned \<times> string" where
  "scanf_d env inp =
     (case dropWhile isspace inp of
        [] \<Rightarrow> (EndOfFile, [])
      | c # cs \<Rightarrow>
          (let negative = (c = CHR ''-'');
               body = (if c = CHR ''-'' \<or> c = CHR ''+'' then cs else c # cs);
               digits = takeWhile isdigit body;
               number = (if negative then - decimal digits else decimal digits)
           in if digits = [] then (NoMatch, body)
              else (Assigned (if INT_MIN \<le> number \<and> number \<le> INT_MAX then number
                              else int_overflow env number),
                    dropWhile isdigit body)))"

text \<open>
  \<^verbatim>\<open>while (getchar() != '\n');\<close> discards the rest of the line. At the end of the input
  \<^verbatim>\<open>getchar\<close> returns \<^verbatim>\<open>EOF\<close>, which is not a newline, and the input stays at its
  end: the loop goes on. A loop that never ends has the value \<open>None\<close>.
\<close>

partial_function (option) flush_line :: "string \<Rightarrow> string option" where
  "flush_line inp =
     (case inp of
        [] \<Rightarrow> flush_line []
      | c # cs \<Rightarrow> if c = CHR 0x0A then Some cs else flush_line cs)"

text \<open>
  \<^verbatim>\<open>while (scanf_s("%d", &choice) != 1 || choice < 1 || choice > 5) { printf(...); flush }\<close>.
  The result is the accepted choice, the input left, and the output state.
\<close>

partial_function (option) read_choice :: "env \<Rightarrow> string \<Rightarrow> io \<Rightarrow> (int \<times> string \<times> io) option" where
  "read_choice env inp io =
     (case scanf_d env inp of
        (Assigned choice, rest) \<Rightarrow>
          if choice < 1 \<or> choice > 5
          then Option.bind (flush_line rest) (\<lambda>rest'.
                 read_choice env rest' (printf ''Invalid choice! Please enter a number between 1 and 5: '' io))
          else Some (choice, rest, io)
      | (unassigned, rest) \<Rightarrow>
          Option.bind (flush_line rest) (\<lambda>rest'.
            read_choice env rest' (printf ''Invalid choice! Please enter a number between 1 and 5: '' io)))"

text \<open>
  \<^verbatim>\<open>main\<close> (lines 192-231): the menu, the selection, the report file with its header, the
  loop over the sizes. It returns \<open>None\<close> when it never returns, and otherwise the exit
  status with the output, or the fault of a kernel.
\<close>

definition menu :: "string list" where
  "menu = [''Choose a program to run:'', ''1. Sequential'', ''2. OpenMP Naive'',
           ''3. MPI Naive'', ''4. OpenMP Tiled'', ''5. MPI Tiled'']"

definition main :: "env \<Rightarrow> string \<Rightarrow> io \<Rightarrow> (fault + int \<times> io) option" where
  "main env stdin io =
     (case read_choice env stdin (foldl (\<lambda>io line. printf line io) io menu) of
        None \<Rightarrow> None
      | Some (choice, rest, io1) \<Rightarrow>
          Some (if \<not> fopen_ok env then Inr (1, printf ''Error opening file!'' io1)
                else bindE (size_loop env choice 64 (comm_rank env) (comm_size env)
                              (fprintf Header io1))
                       (\<lambda>io2. Inr (0, io2))))"

section \<open>Notions used in the statements and proofs\<close>

text \<open>
  The definitions of this section do not model code; they name what the lemmas below say
  about it.

  \<open>dot_from r0 row v js\<close> is the value of \<^verbatim>\<open>result[i]\<close> after it held \<open>r0\<close> and
  \<^verbatim>\<open>result[i] += row[j] * v[j]\<close> ran for the columns \<open>js\<close> in this order.
\<close>

definition dot_from :: "'a::{plus,times} \<Rightarrow> 'a list \<Rightarrow> 'a list \<Rightarrow> nat list \<Rightarrow> 'a" where
  "dot_from r0 row v js = foldl (\<lambda>acc j. acc + row ! j * v ! j) r0 js"

text \<open>
  A loop \<^verbatim>\<open>for (i = a; i < b; i += T)\<close> runs \<open>tile_count a b T\<close> times, for the values
  \<open>tile_starts a b T\<close> of \<open>i\<close>. \<open>nest_order\<close> lists the tuples \<open>(i, j, ii, jj)\<close> for which
  the tiled nest runs its body, given the tile origins of the rows and of the columns;
  \<open>visited_in_row k\<close> picks the columns visited in row \<open>k\<close>, in order. \<open>tiles_fit\<close> says
  that the tiles over the rows from \<open>a\<close> to \<open>b\<close> and over \<open>cols\<close> columns stay inside a
  \<open>rows\<close> x \<open>cols\<close> matrix.
\<close>

definition tile_count :: "nat \<Rightarrow> nat \<Rightarrow> nat \<Rightarrow> nat" where
  "tile_count a b T = (b - a + T - 1) div T"

definition tile_starts :: "nat \<Rightarrow> nat \<Rightarrow> nat \<Rightarrow> nat list" where
  "tile_starts a b T = map (\<lambda>q. a + q * T) [0..<tile_count a b T]"

definition nest_order :: "nat list \<Rightarrow> nat list \<Rightarrow> nat \<Rightarrow> (nat \<times> nat \<times> nat \<times> nat) list" where
  "nest_order is js T =
     concat (map (\<lambda>i. concat (map (\<lambda>j. concat (map (\<lambda>ii. map (\<lambda>jj. (i, j, ii, jj)) [j..<j + T])
       [i..<i + T])) js)) is)"

definition visited_in_row :: "nat \<Rightarrow> (nat \<times> nat) list \<Rightarrow> nat list" where
  "visited_in_row k ps = map snd (filter (\<lambda>p. fst p = k) ps)"

definition tiles_fit :: "nat \<Rightarrow> nat \<Rightarrow> nat \<Rightarrow> nat \<Rightarrow> nat \<Rightarrow> bool" where
  "tiles_fit a b rows cols T \<longleftrightarrow>
     tile_count a b T = 0 \<or> tile_count 0 cols T = 0
     \<or> (a + tile_count a b T * T \<le> rows \<and> tile_count 0 cols T * T \<le> cols)"

text \<open>A kernel's frame: the matrix and the vector of \<open>t\<close> are those of \<open>s\<close>.\<close>

definition same_inputs :: "'a mem \<Rightarrow> 'a mem \<Rightarrow> bool" where
  "same_inputs s t \<longleftrightarrow> matrix t = matrix s \<and> vector t = vector s"

text \<open>
  \<open>failed_once io io'\<close>: between the two output states one allocation failure was
  reported and nothing else was printed, written or drawn. \<open>fresh_mem env k N\<close> is the
  memory that the three allocations of \<^verbatim>\<open>run_programs\<close> return when they are the calls
  \<open>k, ..., k + N + 2\<close> of \<^verbatim>\<open>malloc\<close> and all succeed.
\<close>

definition failed_once :: "io \<Rightarrow> io \<Rightarrow> bool" where
  "failed_once io io' \<longleftrightarrow>
     stdout io' = stdout io @ [''Memory allocation failed!''] \<and> csv io' = csv io
     \<and> rands io' = rands io \<and> clocks io' = clocks io"

definition fresh_mem :: "env \<Rightarrow> nat \<Rightarrow> nat \<Rightarrow> real mem" where
  "fresh_mem env k N =
     \<lparr>matrix = map (\<lambda>j. map (malloc_junk env (k + 1 + j)) [0..<N]) [0..<N],
      vector = map (malloc_junk env (k + N + 1)) [0..<N],
      result = map (malloc_junk env (k + N + 2)) [0..<N]\<rparr>"

text \<open>
  \<open>sizes_from N\<close> lists the values that \<open>N\<close> takes in the loop of \<^verbatim>\<open>main\<close> when it is
  entered at \<open>N\<close>: \<open>N\<close>, \<open>2 * N\<close>, \<open>4 * N\<close>, ... as long as they do not exceed
  \<^verbatim>\<open>MAX_SIZE\<close>. \<open>timing_records env label c Ns\<close> are the records that the report gains
  when the sizes \<open>Ns\<close> are timed one after the other and the clock has been read \<open>c\<close> times
  before: each size reads the clock twice and records the difference.
  \<open>variant_label\<close> is the label that the \<^verbatim>\<open>switch\<close> of \<^verbatim>\<open>run_programs\<close> writes for the
  variants 1 to 5. \<open>variant_in_bounds\<close> is a condition under which the kernel of the variant
  returns on \<open>N\<close> x \<open>N\<close> arrays: nothing for the two untiled shared-memory kernels; the
  tile edge divides \<open>N\<close> for the tiled ones; for the distributed ones the rank belongs to the
  communicator and every rank brings a buffer of \<open>N\<close> elements to the all-gather, and for
  \<^verbatim>\<open>mpi_tiled_mvm\<close> the tile edge also divides the length of the row range.
\<close>

function sizes_from :: "nat \<Rightarrow> nat list" where
  "sizes_from N = (if 0 < N \<and> N \<le> MAX_SIZE then N # sizes_from (N * 2) else [])"
  by pat_completeness auto
termination
  by (relation "measure (\<lambda>N. MAX_SIZE + 1 - N)") auto

declare sizes_from.simps [simp del]




text \<open>The invariants of the two phases of \<^verbatim>\<open>fill_random\<close>, over the cells written so far.\<close>

definition unit_interval :: "real \<Rightarrow> bool" where
  "unit_interval x \<longleftrightarrow> 0 \<le> x \<and> x \<le> 1"

definition matrix_filled :: "real mem \<Rightarrow> nat \<Rightarrow> nat \<Rightarrow> (nat \<times> nat) list \<Rightarrow> real mem \<times> io \<Rightarrow> bool" where
  "matrix_filled s0 rows cols written = (\<lambda>(s, io).
     length (matrix s) = rows \<and> (\<forall>i<rows. length (matrix s ! i) = cols)
     \<and> vector s = vector s0 \<and> result s = result s0
     \<and> (\<forall>p\<in>set written. unit_interval (matrix s ! fst p ! snd p)))"

definition vector_filled :: "real mem \<Rightarrow> nat \<Rightarrow> nat list \<Rightarrow> real mem \<times> io \<Rightarrow> bool" where
  "vector_filled s1 cols written = (\<lambda>(s, io).
     matrix s = matrix s1 \<and> result s = result s1 \<and> length (vector s) = cols
     \<and> (\<forall>j\<in>set written. unit_interval (vector s ! j)))"

section \<open>Concrete inputs\<close>


abbreviation io0 :: io where
  "io0 \<equiv> \<lparr>mallocs = 0, rands = 0, clocks = 0, stdout = [], csv = [Header]\<rparr>"


abbreviation always_max :: env where
  "always_max \<equiv> \<lparr>malloc_ok = (\<lambda>k. True), malloc_junk = (\<lambda>k i. 1), rand_out = (\<lambda>k. 32767),
     RAND_MAX = 32767, wtime = (\<lambda>k. real k), peer_results = (\<lambda>N. []), fopen_ok = True,
     comm_rank = 0, comm_size = 1, int_overflow = wrap_int\<rparr>"

abbreviation cell :: "real mem" where
  "cell \<equiv> \<lparr>matrix = [[0]], vector = [0], result = [0]\<rparr>"

abbreviation small :: "int mem" where
  "small \<equiv> \<lparr>matrix = [[1, 2], [3, 4]], vector = [5, 6], result = [7, 8]\<rparr>"

abbreviation ones :: "real mem" where
  "ones \<equiv> \<lparr>matrix = replicate 64 (replicate 64 1), vector = replicate 64 1,
            result = replicate 64 1\<rparr>"

abbreviation zeros80 :: "real mem" where
  "zeros80 \<equiv> \<lparr>matrix = replicate 80 (replicate 80 0), vector = replicate 80 0,
               result = replicate 80 0\<rparr>"

abbreviation cancelling :: "double mem" where
  "cancelling \<equiv> \<lparr>matrix = [[Double (2 ^ 70), Double (- (2 ^ 70))], [Double 0, Double 0]],
                  vector = [Double 1, Double 1], result = [Double 1, Double 0]\<rparr>"

section \<open>Row partition of the distributed kernels\<close>

lemma part_start_le_end: "part_start rows nprocs rank \<le> part_end rows nprocs rank"
proof (cases "rank + 1 = nprocs")
  case True
  have "(rows div nprocs) * rank \<le> (rows div nprocs) * nprocs"
    using True by simp
  also have "\<dots> \<le> rows"
    by simp
  finally show ?thesis
    using True by (simp add: part_start_def part_end_def)
next
  case False
  then show ?thesis
    by (simp add: part_start_def part_end_def)
qed

lemma part_end_is_next_start:
  "rank + 1 < nprocs \<Longrightarrow> part_end rows nprocs rank = part_start rows nprocs (rank + 1)"
  by (simp add: part_start_def part_end_def)

lemma part_mono_start: "r \<le> r' \<Longrightarrow> part_start rows nprocs r \<le> part_start rows nprocs r'"
  by (simp add: part_start_def)

lemma part_end_le_later_start:
  assumes "r < r'" "r' < nprocs"
  shows "part_end rows nprocs r \<le> part_start rows nprocs r'"
proof -
  have "part_end rows nprocs r = part_start rows nprocs (r + 1)"
    using assms by (intro part_end_is_next_start) simp
  also have "\<dots> \<le> part_start rows nprocs r'"
    using assms by (intro part_mono_start) simp
  finally show ?thesis .
qed

lemma part_cover:
  assumes "i < rows" "0 < nprocs"
  shows "\<exists>r<nprocs. part_start rows nprocs r \<le> i \<and> i < part_end rows nprocs r"
proof (cases "i < (rows div nprocs) * (nprocs - 1)")
  case False
  then have "part_start rows nprocs (nprocs - 1) \<le> i \<and> i < part_end rows nprocs (nprocs - 1)"
    using assms by (simp add: part_start_def part_end_def)
  then show ?thesis
    using assms by (intro exI[of _ "nprocs - 1"]) simp
next
  case True
  define c where "c = rows div nprocs"
  have cpos: "0 < c"
    using True by (cases "c = 0") (simp_all add: c_def)
  define r where "r = i div c"
  have lo: "c * r \<le> i"
    by (simp add: r_def)
  have hi: "i < c * (r + 1)"
    using cpos by (simp add: r_def dividend_less_times_div)
  have "c * r < c * (nprocs - 1)"
    using lo True unfolding c_def by (rule le_less_trans)
  then have rlt: "r < nprocs - 1"
    by simp
  then have "r + 1 \<noteq> nprocs"
    by simp
  then have "part_start rows nprocs r \<le> i \<and> i < part_end rows nprocs r"
    using lo hi by (simp add: part_start_def part_end_def c_def)
  then show ?thesis
    using rlt by (intro exI[of _ r]) simp
qed

section \<open>Loops\<close>

text \<open>
  A counting loop is the run of its body over the list of the values its counter takes;
  loops over lists compose, flatten and carry invariants.
\<close>

lemma bindE_Inl [simp]: "bindE (Inl e) f = Inl e"
  by (simp add: bindE_def)

lemma bindE_Inr [simp]: "bindE (Inr x) f = f x"
  by (simp add: bindE_def)

lemma bindE_eq_Inr: "bindE m f = Inr y \<longleftrightarrow> (\<exists>x. m = Inr x \<and> f x = Inr y)"
  by (cases m) simp_all

lemma for_loop_unit: "for_loop a b 1 body s = for_each [a..<b] body s"
proof (induction a b "1::nat" body s rule: for_loop.induct)
  case (1 i bound body s)
  show ?case
  proof (cases "i < bound")
    case True
    then have "[i..<bound] = i # [i + 1..<bound]"
      by (simp add: upt_rec)
    then show ?thesis
      using True 1 by (subst for_loop.simps) (simp split: sum.splits)
  next
    case False
    then show ?thesis
      by (subst for_loop.simps) simp
  qed
qed

lemma for_each_append:
  "for_each (xs @ ys) body s = bindE (for_each xs body s) (for_each ys body)"
  by (induction xs arbitrary: s) (simp_all split: sum.splits)

lemma for_each_map: "for_each (map f xs) body s = for_each xs (\<lambda>x. body (f x)) s"
  by (induction xs arbitrary: s) (simp_all split: sum.splits)

lemma for_each_concat:
  "for_each (concat (map g xs)) body s = for_each xs (\<lambda>x. for_each (g x) body) s"
  by (induction xs arbitrary: s) (simp_all add: for_each_append bindE_def split: sum.splits)

section \<open>What the kernels compute\<close>

text \<open>
  On arrays of the right size the statement \<^verbatim>\<open>result[i] += matrix[i][j] * vector[j]\<close>
  never faults, and a run of it over any sequence of index pairs leaves in every row the
  left fold of its products, in the order of the sequence. A pair outside the arrays makes
  the whole run fault.
\<close>

lemma dot_from_Nil [simp]: "dot_from r0 row v [] = r0"
  by (simp add: dot_from_def)

lemma dot_from_Cons [simp]:
  "dot_from r0 row v (j # js) = dot_from (r0 + row ! j * v ! j) row v js"
  by (simp add: dot_from_def)

lemma dot_from_append:
  "dot_from r0 row v (js @ ks) = dot_from (dot_from r0 row v js) row v ks"
  by (simp add: dot_from_def)

lemma for_loop_unit_Suc: "for_loop a b (Suc 0) body s = for_each [a..<b] body s"
  using for_loop_unit[of a b body s] by simp

lemma allocated_row: "allocated s rows cols \<Longrightarrow> i < rows \<Longrightarrow> length (matrix s ! i) = cols"
  by (simp add: allocated_def list_all_length)

lemma allocated_result_update [simp]:
  "allocated (s\<lparr>result := r\<rparr>) rows cols \<longleftrightarrow>
     length (matrix s) = rows \<and> list_all (\<lambda>row. length row = cols) (matrix s)
     \<and> length (vector s) = cols \<and> length r = rows"
  by (simp add: allocated_def)

lemma accumulate_ok:
  assumes "allocated s rows cols" "i < rows" "j < cols"
  shows "accumulate i j s
           = Inr (s\<lparr>result := (result s)[i := result s ! i + matrix s ! i ! j * vector s ! j]\<rparr>)"
  using assms allocated_row[OF assms(1,2)] by (simp add: accumulate_def allocated_def)

lemma accumulate_oob:
  assumes "allocated s rows cols" "\<not> (i < rows \<and> j < cols)"
  shows "accumulate i j s = Inl OutOfBounds"
proof (cases "i < rows")
  case True
  then show ?thesis
    using assms allocated_row[OF assms(1) True] by (simp add: accumulate_def allocated_def)
next
  case False
  then show ?thesis
    using assms by (simp add: accumulate_def allocated_def)
qed

lemma accumulate_allocated:
  "allocated s rows cols \<Longrightarrow> accumulate i j s = Inr s' \<Longrightarrow> allocated s' rows cols"
  by (auto simp: accumulate_def allocated_def split: if_splits)

lemma acc_pairs:
  assumes "allocated s rows cols" "\<forall>p\<in>set ps. fst p < rows \<and> snd p < cols"
  shows "for_each ps (\<lambda>p. accumulate (fst p) (snd p)) s
           = Inr (s\<lparr>result := map (\<lambda>k. dot_from (result s ! k) (matrix s ! k) (vector s)
                                        (map snd (filter (\<lambda>p. fst p = k) ps))) [0..<rows]\<rparr>)"
  using assms
proof (induction ps arbitrary: s)
  case Nil
  have "length (result s) = rows"
    using Nil(1) by (simp add: allocated_def)
  then have "map (\<lambda>k. result s ! k) [0..<rows] = result s"
    using map_nth[of "result s"] by simp
  then show ?case by simp
next
  case (Cons p ps)
  define s1 where "s1 = s\<lparr>result := (result s)[fst p := result s ! fst p
                              + matrix s ! fst p ! snd p * vector s ! snd p]\<rparr>"
  have p: "fst p < rows" "snd p < cols"
    using Cons.prems(2) by simp_all
  have step: "accumulate (fst p) (snd p) s = Inr s1"
    unfolding s1_def by (rule accumulate_ok[OF Cons.prems(1) p])
  have alloc1: "allocated s1 rows cols"
    using Cons.prems(1) by (simp add: s1_def allocated_def)
  have rest: "\<forall>p\<in>set ps. fst p < rows \<and> snd p < cols"
    using Cons.prems(2) by simp
  have len: "length (result s) = rows"
    using Cons.prems(1) by (simp add: allocated_def)
  have eq: "map (\<lambda>k. dot_from (result s1 ! k) (matrix s1 ! k) (vector s1)
                     (map snd (filter (\<lambda>p. fst p = k) ps))) [0..<rows]
          = map (\<lambda>k. dot_from (result s ! k) (matrix s ! k) (vector s)
                     (map snd (filter (\<lambda>q. fst q = k) (p # ps)))) [0..<rows]"
  proof (rule map_cong[OF refl])
    fix k assume "k \<in> set [0..<rows]"
    then have "k < length (result s)"
      using len by simp
    then show "dot_from (result s1 ! k) (matrix s1 ! k) (vector s1)
                 (map snd (filter (\<lambda>p. fst p = k) ps))
             = dot_from (result s ! k) (matrix s ! k) (vector s)
                 (map snd (filter (\<lambda>q. fst q = k) (p # ps)))"
      by (cases "fst p = k") (auto simp: s1_def)
  qed
  have "for_each (p # ps) (\<lambda>p. accumulate (fst p) (snd p)) s
          = for_each ps (\<lambda>p. accumulate (fst p) (snd p)) s1"
    using step by simp
  also have "\<dots> = Inr (s1\<lparr>result := map (\<lambda>k. dot_from (result s1 ! k) (matrix s1 ! k) (vector s1)
                                        (map snd (filter (\<lambda>p. fst p = k) ps))) [0..<rows]\<rparr>)"
    by (rule Cons.IH[OF alloc1 rest])
  also have "\<dots> = Inr (s\<lparr>result := map (\<lambda>k. dot_from (result s ! k) (matrix s ! k) (vector s)
                     (map snd (filter (\<lambda>q. fst q = k) (p # ps)))) [0..<rows]\<rparr>)"
    unfolding eq by (simp add: s1_def)
  finally show ?case .
qed

lemma acc_pairs_oob:
  assumes "allocated s rows cols" "\<exists>p\<in>set ps. \<not> (fst p < rows \<and> snd p < cols)"
  shows "for_each ps (\<lambda>p. accumulate (fst p) (snd p)) s = Inl OutOfBounds"
  using assms
proof (induction ps arbitrary: s)
  case Nil
  then show ?case by simp
next
  case (Cons p ps)
  show ?case
  proof (cases "fst p < rows \<and> snd p < cols")
    case False
    then show ?thesis
      using accumulate_oob[OF Cons.prems(1) False] by simp
  next
    case True
    then obtain s1 where s1: "accumulate (fst p) (snd p) s = Inr s1"
      using accumulate_ok[OF Cons.prems(1)] by blast
    have "allocated s1 rows cols"
      by (rule accumulate_allocated[OF Cons.prems(1) s1])
    moreover have "\<exists>p\<in>set ps. \<not> (fst p < rows \<and> snd p < cols)"
      using Cons.prems(2) True by auto
    ultimately have "for_each ps (\<lambda>p. accumulate (fst p) (snd p)) s1 = Inl OutOfBounds"
      by (rule Cons.IH)
    then show ?thesis
      using s1 by simp
  qed
qed

lemma acc_row:
  assumes "allocated s rows cols" "i < rows" "\<forall>j\<in>set js. j < cols"
  shows "for_each js (accumulate i) s
           = Inr (s\<lparr>result := (result s)[i := dot_from (result s ! i) (matrix s ! i) (vector s) js]\<rparr>)"
  using assms
proof (induction js arbitrary: s)
  case Nil
  then show ?case by simp
next
  case (Cons j js)
  define s1 where "s1 = s\<lparr>result := (result s)[i := result s ! i + matrix s ! i ! j * vector s ! j]\<rparr>"
  have step: "accumulate i j s = Inr s1"
    unfolding s1_def using Cons.prems by (intro accumulate_ok[of s rows cols]) simp_all
  have alloc1: "allocated s1 rows cols"
    using Cons.prems(1) by (simp add: s1_def allocated_def)
  have "for_each js (accumulate i) s1
          = Inr (s1\<lparr>result := (result s1)[i := dot_from (result s1 ! i) (matrix s1 ! i) (vector s1) js]\<rparr>)"
    using Cons.prems by (intro Cons.IH[OF alloc1]) simp_all
  moreover have "i < length (result s)"
    using Cons.prems by (simp add: allocated_def)
  ultimately show ?case
    using step by (simp add: s1_def)
qed

lemma row_product_result:
  assumes "allocated s rows cols" "i < rows"
  shows "row_product cols i s
           = Inr (s\<lparr>result := (result s)[i := dot_from 0 (matrix s ! i) (vector s) [0..<cols]]\<rparr>)"
proof -
  define s0 where "s0 = s\<lparr>result := (result s)[i := 0]\<rparr>"
  have len: "i < length (result s)"
    using assms by (simp add: allocated_def)
  then have z: "zero_result i s = Inr s0"
    by (simp add: zero_result_def s0_def)
  have alloc0: "allocated s0 rows cols"
    using assms(1) by (simp add: s0_def allocated_def)
  have "for_each [0..<cols] (accumulate i) s0
          = Inr (s0\<lparr>result := (result s0)[i := dot_from (result s0 ! i) (matrix s0 ! i) (vector s0) [0..<cols]]\<rparr>)"
    using assms(2) by (intro acc_row[OF alloc0]) simp_all
  then show ?thesis
    using z len by (simp add: row_product_def for_loop_unit_Suc s0_def)
qed

lemma rows_result:
  assumes "allocated s rows cols" "\<forall>i\<in>set is. i < rows"
  shows "for_each is (row_product cols) s
           = Inr (s\<lparr>result := map (\<lambda>k. if k \<in> set is
                                         then dot_from 0 (matrix s ! k) (vector s) [0..<cols]
                                         else result s ! k) [0..<rows]\<rparr>)"
  using assms
proof (induction "is" arbitrary: s)
  case Nil
  have "length (result s) = rows"
    using Nil(1) by (simp add: allocated_def)
  then have "map (\<lambda>k. result s ! k) [0..<rows] = result s"
    using map_nth[of "result s"] by simp
  then show ?case by simp
next
  case (Cons i "is")
  define s1 where "s1 = s\<lparr>result := (result s)[i := dot_from 0 (matrix s ! i) (vector s) [0..<cols]]\<rparr>"
  have step: "row_product cols i s = Inr s1"
    unfolding s1_def using Cons.prems by (intro row_product_result[of s rows cols]) simp_all
  have alloc1: "allocated s1 rows cols"
    using Cons.prems(1) by (simp add: s1_def allocated_def)
  have len: "length (result s) = rows"
    using Cons.prems(1) by (simp add: allocated_def)
  have eq: "map (\<lambda>k. if k \<in> set is then dot_from 0 (matrix s1 ! k) (vector s1) [0..<cols]
                     else result s1 ! k) [0..<rows]
          = map (\<lambda>k. if k \<in> set (i # is) then dot_from 0 (matrix s ! k) (vector s) [0..<cols]
                     else result s ! k) [0..<rows]"
  proof (rule map_cong[OF refl])
    fix k assume "k \<in> set [0..<rows]"
    then have "k < length (result s)"
      using len by simp
    then show "(if k \<in> set is then dot_from 0 (matrix s1 ! k) (vector s1) [0..<cols]
                else result s1 ! k)
             = (if k \<in> set (i # is) then dot_from 0 (matrix s ! k) (vector s) [0..<cols]
                else result s ! k)"
      by (cases "k = i") (auto simp: s1_def)
  qed
  have "for_each (i # is) (row_product cols) s = for_each is (row_product cols) s1"
    using step by simp
  also have "\<dots> = Inr (s1\<lparr>result := map (\<lambda>k. if k \<in> set is
                          then dot_from 0 (matrix s1 ! k) (vector s1) [0..<cols]
                          else result s1 ! k) [0..<rows]\<rparr>)"
    using Cons.prems(2) by (intro Cons.IH[OF alloc1]) simp
  also have "\<dots> = Inr (s\<lparr>result := map (\<lambda>k. if k \<in> set (i # is)
                          then dot_from 0 (matrix s ! k) (vector s) [0..<cols]
                          else result s ! k) [0..<rows]\<rparr>)"
    unfolding eq by (simp add: s1_def)
  finally show ?case .
qed

lemma row_loop_any_order:
  assumes "allocated s rows cols" "set order = {0..<rows}"
  shows "for_each order (row_product cols) s = for_loop 0 rows 1 (row_product cols) s"
proof -
  have "\<forall>i\<in>set order. i < rows" "\<forall>i\<in>set [0..<rows]. i < rows"
    using assms(2) by simp_all
  then show ?thesis
    using assms(2) by (simp add: for_loop_unit_Suc rows_result[OF assms(1)])
qed

lemma sequential_mvm_result:
  assumes "allocated s rows cols"
  shows "sequential_mvm s rows cols
           = Inr (s\<lparr>result := map (\<lambda>k. dot_from 0 (matrix s ! k) (vector s) [0..<cols]) [0..<rows]\<rparr>)"
proof -
  have "\<forall>i\<in>set [0..<rows]. i < rows"
    by simp
  from rows_result[OF assms this] show ?thesis
    by (simp add: sequential_mvm_def for_loop_unit_Suc cong: map_cong)
qed

section \<open>The tiled loop nest\<close>

text \<open>
  The strided loops run once for each tile origin, also when the tile edge does not divide
  the range: the last tile then reaches beyond it. Flattened, the nest visits in every row
  of its row tiles the columns \<open>0, ..., m * T - 1\<close> in order, \<open>m\<close> the number of column
  tiles.
\<close>

lemma tile_count_step:
  assumes "0 < T" "a < b"
  shows "tile_count a b T = Suc (tile_count (a + T) b T)"
proof (cases "T \<le> b - a")
  case True
  define c where "c = b - (a + T) + T - 1"
  have "b - a + T - 1 = c + T"
    using True assms by (simp add: c_def)
  then have "(b - a + T - 1) div T = (c + T) div T"
    by (rule arg_cong)
  also have "\<dots> = Suc (c div T)"
    using assms(1) by simp
  finally show ?thesis
    by (simp only: tile_count_def c_def)
next
  case False
  then have z: "b - (a + T) = 0"
    by simp
  have "T \<le> b - a + T - 1" "b - a + T - 1 < 2 * T"
    using assms False by simp_all
  then have "(b - a + T - 1) div T = 1"
    by (intro div_nat_eqI) simp_all
  then show ?thesis
    using assms z by (simp add: tile_count_def)
qed

lemma tile_starts_step:
  assumes "0 < T" "a < b"
  shows "tile_starts a b T = a # tile_starts (a + T) b T"
proof -
  define n where "n = tile_count (a + T) b T"
  have cnt: "tile_count a b T = Suc n"
    unfolding n_def by (rule tile_count_step[OF assms])
  have "[0..<Suc n] = 0 # map Suc [0..<n]"
    by (simp only: upt_conv_Cons[of 0 "Suc n"] map_Suc_upt zero_less_Suc)
  then have "map (\<lambda>q. a + q * T) [0..<Suc n]
               = a # map (\<lambda>q. a + Suc q * T) [0..<n]"
    by (simp add: comp_def del: upt_Suc)
  also have "map (\<lambda>q. a + Suc q * T) [0..<n] = map (\<lambda>q. a + T + q * T) [0..<n]"
    by (rule map_cong[OF refl]) simp
  finally show ?thesis
    unfolding tile_starts_def cnt n_def[symmetric] .
qed

lemma for_loop_tiles:
  "0 < T \<Longrightarrow> for_loop a b T body s = for_each (tile_starts a b T) body s"
proof (induction a b T body s rule: for_loop.induct)
  case (1 i bound step body s)
  show ?case
  proof (cases "i < bound")
    case False
    then have "tile_count i bound step = 0"
      using 1(2) by (simp add: tile_count_def)
    then show ?thesis
      using False by (subst for_loop.simps) (simp add: tile_starts_def)
  next
    case True
    note starts = tile_starts_step[OF 1(2) True]
    show ?thesis
    proof (cases "body i s")
      case (Inl e)
      then show ?thesis
        using True starts by (subst for_loop.simps) simp
    next
      case (Inr s1)
      have "for_loop i bound step body s = for_loop (i + step) bound step body s1"
        using True 1(2) Inr by (subst for_loop.simps) simp
      also have "\<dots> = for_each (tile_starts (i + step) bound step) body s1"
        using True 1(2) Inr by (intro 1(1)) simp_all
      finally show ?thesis
        using Inr starts by simp
    qed
  qed
qed

lemma for_each_concat_fn:
  "for_each (concat (map g xs)) body = for_each xs (\<lambda>x. for_each (g x) body)"
  by (rule ext) (rule for_each_concat)

lemma for_each_map_fn: "for_each (map f xs) body = for_each xs (\<lambda>x. body (f x))"
  by (rule ext) (rule for_each_map)

lemma tile_nest_order:
  assumes "0 < T"
  shows "tile_nest a b cols T body s
           = for_each (nest_order (tile_starts a b T) (tile_starts 0 cols T) T)
               (\<lambda>(i, j, ii, jj). body i j ii jj) s"
proof -
  have tiles: "\<And>a b body. for_loop a b T body = for_each (tile_starts a b T) body"
    by (rule ext) (rule for_loop_tiles[OF assms])
  have unit: "\<And>a b body. for_loop a b 1 body = for_each [a..<b] body"
    by (rule ext) (rule for_loop_unit)
  show ?thesis
    unfolding tile_nest_def nest_order_def unit tiles for_each_concat_fn for_each_map_fn
    by simp
qed

lemma nest_pairs:
  "map (\<lambda>t. snd (snd t)) (nest_order is js T)
     = concat (map (\<lambda>i. concat (map (\<lambda>j. concat (map (\<lambda>ii. map (Pair ii) [j..<j + T])
         [i..<i + T])) js)) is)"
  by (simp add: nest_order_def map_concat comp_def)

lemma visited_in_row_concat:
  "visited_in_row k (concat pss) = concat (map (visited_in_row k) pss)"
  by (induction pss) (simp_all add: visited_in_row_def)

lemma visited_in_row_Pair: "visited_in_row k (map (Pair ii) J) = (if ii = k then J else [])"
  by (cases "ii = k") (simp_all add: visited_in_row_def filter_map comp_def)

lemma concat_if_distinct:
  "distinct xs \<Longrightarrow> concat (map (\<lambda>x. if x = k then X else []) xs) = (if k \<in> set xs then X else [])"
  by (induction xs) auto

lemma visited_in_row_tile:
  "concat (map (\<lambda>ii. visited_in_row k (map (Pair ii) [j..<j + T])) [i..<i + T])
     = (if i \<le> k \<and> k < i + T then [j..<j + T] else [])"
proof -
  have "concat (map (\<lambda>ii. visited_in_row k (map (Pair ii) [j..<j + T])) [i..<i + T])
          = concat (map (\<lambda>ii. if ii = k then [j..<j + T] else []) [i..<i + T])"
    by (simp add: visited_in_row_Pair)
  also have "\<dots> = (if k \<in> set [i..<i + T] then [j..<j + T] else [])"
    by (rule concat_if_distinct) simp
  finally show ?thesis by simp
qed

lemma concat_col_tiles: "concat (map (\<lambda>q. [q * T..<q * T + T]) [0..<m]) = [0..<m * T]"
proof (induction m)
  case 0
  then show ?case by simp
next
  case (Suc m)
  have "[0..<m * T] @ [m * T..<m * T + T] = [0..<m * T + T]"
    by (metis upt_add_eq_append zero_le)
  then show ?case
    using Suc by (simp add: add.commute)
qed

lemma concat_row_bands:
  "concat (map (\<lambda>q. if a + q * T \<le> k \<and> k < a + q * T + T then Y else []) [0..<n])
     = (if a \<le> k \<and> k < a + n * T then Y else [])"
proof (induction n)
  case 0
  then show ?case by auto
next
  case (Suc n)
  show ?case
  proof (cases "a \<le> k \<and> k < a + n * T")
    case True
    then have "\<not> a + n * T \<le> k" "k < a + Suc n * T"
      by simp_all
    then show ?thesis
      using Suc True by simp
  next
    case False
    have "(a + n * T \<le> k \<and> k < a + n * T + T) = (a \<le> k \<and> k < a + Suc n * T)"
      using False by auto
    then show ?thesis
      using Suc False by (simp add: add.commute add.left_commute)
  qed
qed

lemma visited_in_row_nest:
  "visited_in_row k (map (\<lambda>t. snd (snd t))
      (nest_order (tile_starts a b T) (tile_starts 0 cols T) T))
     = (if a \<le> k \<and> k < a + tile_count a b T * T then [0..<tile_count 0 cols T * T] else [])"
proof -
  define m where "m = tile_count 0 cols T"
  define n where "n = tile_count a b T"
  have band: "\<And>i. concat (map (\<lambda>j. concat (map (\<lambda>ii. visited_in_row k
                 (map (Pair ii) [j..<j + T])) [i..<i + T])) (tile_starts 0 cols T))
             = (if i \<le> k \<and> k < i + T then [0..<m * T] else [])"
    unfolding visited_in_row_tile tile_starts_def m_def[symmetric]
    using concat_col_tiles[of T m] by (simp add: comp_def)
  have "visited_in_row k (map (\<lambda>t. snd (snd t))
          (nest_order (tile_starts a b T) (tile_starts 0 cols T) T))
        = concat (map (\<lambda>i. if i \<le> k \<and> k < i + T then [0..<m * T] else [])
            (tile_starts a b T))"
    unfolding nest_pairs by (simp add: visited_in_row_concat comp_def band)
  also have "\<dots> = (if a \<le> k \<and> k < a + n * T then [0..<m * T] else [])"
    unfolding tile_starts_def n_def[symmetric]
    using concat_row_bands[of a T k "[0..<m * T]" n] by (simp add: comp_def)
  finally show ?thesis
    unfolding m_def n_def .
qed

lemma mem_pairs_iff: "(ii, jj) \<in> set ps \<longleftrightarrow> jj \<in> set (visited_in_row ii ps)"
  by (force simp: visited_in_row_def)

lemma nest_visits_iff:
  "(ii, jj) \<in> set (map (\<lambda>t. snd (snd t))
       (nest_order (tile_starts a b T) (tile_starts 0 cols T) T))
     \<longleftrightarrow> a \<le> ii \<and> ii < a + tile_count a b T * T \<and> jj < tile_count 0 cols T * T"
  unfolding mem_pairs_iff visited_in_row_nest by simp

lemma tile_count_ge: "0 < T \<Longrightarrow> b - a \<le> tile_count a b T * T"
proof -
  assume T: "0 < T"
  define x where "x = b - a + T - 1"
  have "x = x div T * T + x mod T"
    by simp
  moreover have "x mod T \<le> T - 1"
    using T by (simp add: less_Suc_eq_le[symmetric])
  ultimately have "x - (T - 1) \<le> x div T * T"
    by linarith
  then show ?thesis
    using T by (simp add: tile_count_def x_def)
qed

lemma tile_count_dvd: 
  assumes "0 < T" "T dvd b - a"
  shows "tile_count a b T * T = b - a"
proof -
  from assms(2) obtain q where q: "b - a = T * q" ..
  have "(T * q + T - 1) div T = q"
    using assms(1) by (intro div_nat_eqI) (simp_all add: algebra_simps)
  then show ?thesis
    by (simp add: tile_count_def q)
qed

lemma tile_count_exact_iff:
  assumes "0 < T"
  shows "tile_count a b T * T \<le> b - a \<longleftrightarrow> T dvd b - a"
proof
  assume "tile_count a b T * T \<le> b - a"
  then have "tile_count a b T * T = b - a"
    using tile_count_ge[OF assms, of b a] by simp
  then show "T dvd b - a"
    by (metis dvd_triv_right)
next
  assume "T dvd b - a"
  then show "tile_count a b T * T \<le> b - a"
    using tile_count_dvd[OF assms] by simp
qed

lemma tile_count_0_iff:
  assumes "0 < T"
  shows "tile_count a b T = 0 \<longleftrightarrow> b \<le> a"
proof (cases "b \<le> a")
  case True
  then show ?thesis
    using assms by (simp add: tile_count_def)
next
  case False
  then have "0 < b - a"
    by simp
  then have "0 < tile_count a b T * T"
    using tile_count_ge[OF assms, of b a] by linarith
  then show ?thesis
    using False by (cases "tile_count a b T = 0") simp_all
qed

lemma tuple_body: "(\<lambda>(i, j, ii, jj). accumulate ii jj) = (\<lambda>t. accumulate (fst (snd (snd t))) (snd (snd (snd t))))"
  by (auto simp: fun_eq_iff)

lemma tile_kernel_pairs:
  assumes "0 < T"
  shows "tile_nest a b cols T (\<lambda>i j ii jj. accumulate ii jj) s
           = for_each (map (\<lambda>t. snd (snd t))
                (nest_order (tile_starts a b T) (tile_starts 0 cols T) T))
               (\<lambda>p. accumulate (fst p) (snd p)) s"
  unfolding tile_nest_order[OF assms] tuple_body for_each_map ..

lemma tile_kernel_result:
  assumes "0 < T" "allocated s rows cols" "tiles_fit a b rows cols T"
  shows "tile_nest a b cols T (\<lambda>i j ii jj. accumulate ii jj) s
           = Inr (s\<lparr>result := map (\<lambda>k. if a \<le> k \<and> k < a + tile_count a b T * T
                      then dot_from (result s ! k) (matrix s ! k) (vector s)
                             [0..<tile_count 0 cols T * T]
                      else result s ! k) [0..<rows]\<rparr>)"
proof -
  define ps where "ps = map (\<lambda>t. snd (snd t))
                (nest_order (tile_starts a b T) (tile_starts 0 cols T) T)"
  have inb: "\<forall>p\<in>set ps. fst p < rows \<and> snd p < cols"
  proof
    fix p assume "p \<in> set ps"
    then have "(fst p, snd p) \<in> set ps" by simp
    then have v: "a \<le> fst p" "fst p < a + tile_count a b T * T" "snd p < tile_count 0 cols T * T"
      unfolding ps_def nest_visits_iff by simp_all
    have "tile_count a b T \<noteq> 0" "tile_count 0 cols T \<noteq> 0"
      using v by (auto intro: ccontr)
    then have "a + tile_count a b T * T \<le> rows" "tile_count 0 cols T * T \<le> cols"
      using assms(3) by (simp_all add: tiles_fit_def)
    then show "fst p < rows \<and> snd p < cols"
      using v by simp
  qed
  have "map (\<lambda>k. dot_from (result s ! k) (matrix s ! k) (vector s)
                (map snd (filter (\<lambda>p. fst p = k) ps))) [0..<rows]
      = map (\<lambda>k. if a \<le> k \<and> k < a + tile_count a b T * T
                      then dot_from (result s ! k) (matrix s ! k) (vector s)
                             [0..<tile_count 0 cols T * T]
                      else result s ! k) [0..<rows]"
    using visited_in_row_nest[of _ a b T cols]
    by (intro map_cong[OF refl]) (simp add: visited_in_row_def[symmetric] ps_def[symmetric])
  then show ?thesis
    unfolding tile_kernel_pairs[OF assms(1)] ps_def[symmetric]
    using acc_pairs[OF assms(2) inb] by simp
qed

lemma tile_kernel_oob:
  assumes "0 < T" "allocated s rows cols" "\<not> tiles_fit a b rows cols T"
  shows "tile_nest a b cols T (\<lambda>i j ii jj. accumulate ii jj) s = Inl OutOfBounds"
proof -
  define ps where "ps = map (\<lambda>t. snd (snd t))
                (nest_order (tile_starts a b T) (tile_starts 0 cols T) T)"
  define n where "n = tile_count a b T"
  define m where "m = tile_count 0 cols T"
  have nm: "0 < n" "0 < m" and over: "rows < a + n * T \<or> cols < m * T"
    using assms(3) by (auto simp: tiles_fit_def n_def m_def)
  have "T \<le> n * T" "T \<le> m * T"
    using nm by simp_all
  then have row_last: "a \<le> a + n * T - 1 \<and> a + n * T - 1 < a + n * T \<and> 0 < m * T"
    and col_last: "a \<le> a \<and> a < a + n * T \<and> m * T - 1 < m * T"
    using assms(1) by linarith+
  have "\<exists>p\<in>set ps. \<not> (fst p < rows \<and> snd p < cols)"
  proof (cases "rows < a + n * T")
    case True
    have "(a + n * T - 1, 0) \<in> set ps"
      unfolding ps_def nest_visits_iff n_def[symmetric] m_def[symmetric]
      by (rule row_last)
    moreover have "\<not> a + n * T - 1 < rows"
      using True by simp
    ultimately show ?thesis
      by force
  next
    case False
    then have c: "cols < m * T"
      using over by simp
    have "(a, m * T - 1) \<in> set ps"
      unfolding ps_def nest_visits_iff n_def[symmetric] m_def[symmetric]
      by (rule col_last)
    moreover have "\<not> m * T - 1 < cols"
      using c by simp
    ultimately show ?thesis
      by force
  qed
  then show ?thesis
    unfolding tile_kernel_pairs[OF assms(1)] ps_def[symmetric]
    by (rule acc_pairs_oob[OF assms(2)])
qed

lemma tiles_fit_square: "0 < T \<Longrightarrow> tiles_fit 0 N N N T \<longleftrightarrow> T dvd N"
  using tile_count_exact_iff[of T 0 N] tile_count_0_iff[of T 0 N]
  by (auto simp: tiles_fit_def)

lemma dot_from_sum:
  fixes r0 :: "'a::semiring_0"
  shows "dot_from r0 row v [0..<n] = r0 + (\<Sum>j<n. row ! j * v ! j)"
  by (induction n) (simp_all add: dot_from_append add.assoc)

section \<open>The distributed kernel\<close>

text \<open>
  What one process computes before the all-gather, and what the all-gather assembles when
  every block holds the values of its own index range.
\<close>

lemma mapE_Inr: "(\<And>x. x \<in> set xs \<Longrightarrow> f x = Inr (g x)) \<Longrightarrow> mapE f xs = Inr (map g xs)"
  by (induction xs) simp_all

lemma part_end_le: "rank < nprocs \<Longrightarrow> part_end rows nprocs rank \<le> rows"
proof (cases "rank + 1 = nprocs")
  case True
  then show ?thesis by (simp add: part_end_def)
next
  case False
  assume "rank < nprocs"
  then have "(rows div nprocs) * (rank + 1) \<le> (rows div nprocs) * nprocs"
    by (intro mult_le_mono2) simp
  also have "\<dots> \<le> rows"
    by simp
  finally show ?thesis
    using False by (simp add: part_end_def)
qed

lemma mpi_mvm_rows_result:
  assumes "rank < nprocs" "allocated s rows cols"
  shows "mpi_mvm_rows s rows cols rank nprocs
           = Inr (s\<lparr>result := map (\<lambda>k. if part_start rows nprocs rank \<le> k \<and> k < part_end rows nprocs rank
                                         then dot_from 0 (matrix s ! k) (vector s) [0..<cols]
                                         else result s ! k) [0..<rows]\<rparr>)"
proof -
  have "\<forall>i\<in>set [part_start rows nprocs rank..<part_end rows nprocs rank]. i < rows"
    using part_end_le[OF assms(1), of rows] by simp
  from rows_result[OF assms(2) this] show ?thesis
    using assms(1) by (simp add: mpi_mvm_rows_def for_loop_unit_Suc)
qed

lemma block_end_le:
  fixes q np c :: nat
  assumes "q < np"
  shows "q * c + c \<le> np * c"
proof -
  have "Suc q * c \<le> np * c"
    using assms by (intro mult_le_mono1) simp
  then show ?thesis
    by (simp add: add.commute)
qed

lemma allgather_blocks:
  assumes "length bufs = np" "\<forall>q<np. length (bufs ! q) = np * c"
    and "\<forall>q<np. \<forall>i<c. bufs ! q ! (q * c + i) = f (q * c + i)" "rank < np"
  shows "MPI_Allgather_IN_PLACE bufs c rank = Inr (map f [0..<np * c])"
proof -
  have fits: "list_all (\<lambda>b. length bufs * c \<le> length b) bufs"
    using assms(1,2) by (simp add: list_all_length)
  have block: "take c (drop (q * c) (bufs ! q)) = map f [q * c..<q * c + c]" if "q < np" for q
  proof (rule nth_equalityI)
    have "q * c + c \<le> np * c"
      using that by (rule block_end_le)
    then show "length (take c (drop (q * c) (bufs ! q))) = length (map f [q * c..<q * c + c])"
      using assms(2) that by simp
  next
    fix i assume "i < length (take c (drop (q * c) (bufs ! q)))"
    then have i: "i < c" by simp
    have "q * c + c \<le> np * c"
      using that by (rule block_end_le)
    then have "q * c + i \<le> length (bufs ! q)"
      using assms(2) that i by simp
    then show "take c (drop (q * c) (bufs ! q)) ! i = map f [q * c..<q * c + c] ! i"
      using i assms(3) that by simp
  qed
  have "concat (map (\<lambda>q. take c (drop (q * c) (bufs ! q))) [0..<np])
          = concat (map (\<lambda>q. map f [q * c..<q * c + c]) [0..<np])"
    by (rule arg_cong[where f = concat], rule map_cong[OF refl]) (simp add: block)
  also have "\<dots> = map f (concat (map (\<lambda>q. [q * c..<q * c + c]) [0..<np]))"
    by (simp add: map_concat comp_def)
  also have "\<dots> = map f [0..<np * c]"
    by (simp only: concat_col_tiles)
  finally have gathered: "concat (map (\<lambda>q. take c (drop (q * c) (bufs ! q))) [0..<np])
                            = map f [0..<np * c]" .
  have "drop (np * c) (bufs ! rank) = []"
    using assms(2,4) by simp
  then show ?thesis
    using fits gathered assms(1,4) by (simp add: MPI_Allgather_IN_PLACE_def)
qed

lemma mpi_mvm_world_result:
  assumes "0 < length ss" "length ss dvd N"
    and "\<forall>s\<in>set ss. allocated s N N \<and> matrix s = m \<and> vector s = v"
  shows "mpi_mvm_world ss N N
           = Inr (map (\<lambda>s. s\<lparr>result := map (\<lambda>k. dot_from 0 (m ! k) v [0..<N]) [0..<N]\<rparr>) ss)"
proof -
  define np where "np = length ss"
  define c where "c = N div np"
  have N: "N = np * c"
    using assms(2) by (simp add: c_def np_def)
  define dot where "dot = (\<lambda>k. dot_from 0 (m ! k) v [0..<N])"
  define R where "R = (\<lambda>rank. map (\<lambda>k. if part_start N np rank \<le> k \<and> k < part_end N np rank
                                         then dot k else result (ss ! rank) ! k) [0..<N])"
  have proc: "allocated (ss ! p) N N" "matrix (ss ! p) = m" "vector (ss ! p) = v" if "p < np" for p
    using assms(3) that by (simp_all add: np_def)
  have rows: "mpi_mvm_rows (ss ! p) N N p np = Inr ((ss ! p)\<lparr>result := R p\<rparr>)" if "p < np" for p
    using mpi_mvm_rows_result[OF that proc(1)[OF that]] proc(2,3)[OF that]
    by (simp add: R_def dot_def)
  have computed: "mapE (\<lambda>rank. mpi_mvm_rows (ss ! rank) N N rank np) [0..<np]
                    = Inr (map (\<lambda>p. (ss ! p)\<lparr>result := R p\<rparr>) [0..<np])"
    by (rule mapE_Inr) (simp add: rows)
  define bufs where "bufs = map R [0..<np]"
  have bufs: "map result (map (\<lambda>p. (ss ! p)\<lparr>result := R p\<rparr>) [0..<np]) = bufs"
    by (simp add: bufs_def comp_def)
  have range: "part_start N np q = q * c" "part_end N np q = q * c + c" if "q < np" for q
    using that N by (auto simp: part_start_def part_end_def c_def[symmetric] algebra_simps)
  have gather: "MPI_Allgather_IN_PLACE bufs c p = Inr (map dot [0..<N])" if "p < np" for p
    unfolding N
  proof (rule allgather_blocks)
    show "length bufs = np"
      by (simp add: bufs_def)
    show "\<forall>q<np. length (bufs ! q) = np * c"
      by (simp add: bufs_def R_def N)
    show "\<forall>q<np. \<forall>i<c. bufs ! q ! (q * c + i) = dot (q * c + i)"
    proof (intro allI impI)
      fix q i assume q: "q < np" and i: "i < c"
      have "q * c + c \<le> np * c"
        using q by (rule block_end_le)
      then have "q * c + i < N"
        using i N by simp
      then show "bufs ! q ! (q * c + i) = dot (q * c + i)"
        using q i by (simp add: bufs_def R_def range)
    qed
    show "p < np" by (rule that)
  qed
  have each: "mpi_mvm bufs (ss ! p) N N p np = Inr ((ss ! p)\<lparr>result := map dot [0..<N]\<rparr>)"
    if "p < np" for p
  proof -
    have "bufs[p := R p] = bufs"
      using that by (simp add: bufs_def list_update_same_conv)
    then show ?thesis
      using rows[OF that] gather[OF that] by (simp add: mpi_mvm_def c_def)
  qed
  have "mpi_mvm_world ss N N = mapE (\<lambda>rank. mpi_mvm bufs (ss ! rank) N N rank np) [0..<np]"
    unfolding mpi_mvm_world_def np_def[symmetric] computed bindE_Inr bufs ..
  also have "\<dots> = Inr (map (\<lambda>p. (ss ! p)\<lparr>result := map dot [0..<N]\<rparr>) [0..<np])"
    by (rule mapE_Inr) (simp add: each)
  also have "map (\<lambda>p. (ss ! p)\<lparr>result := map dot [0..<N]\<rparr>) [0..<np]
               = map (\<lambda>s. s\<lparr>result := map dot [0..<N]\<rparr>) ss"
    unfolding np_def by (rule nth_equalityI) simp_all
  finally show ?thesis
    unfolding dot_def .
qed

section \<open>Allocation and random fill\<close>

text \<open>
  Every allocation function either succeeds without printing or reports its first failure
  once and returns the null pointer; \<^verbatim>\<open>fill_random\<close> succeeds on arrays of the right size.
\<close>

lemma allocate_rows_cases:
  "(\<exists>io'. allocate_rows env k cols acc io = (None, io') \<and> failed_once io io'
          \<and> (\<exists>j<k. \<not> malloc_ok env (mallocs io + j)))
   \<or> (allocate_rows env k cols acc io
        = (Some (acc @ map (\<lambda>j. map (malloc_junk env (mallocs io + j)) [0..<cols]) [0..<k]),
           io\<lparr>mallocs := mallocs io + k\<rparr>)
      \<and> (\<forall>j<k. malloc_ok env (mallocs io + j)))"
proof (induction k arbitrary: acc io)
  case 0
  then show ?case by simp
next
  case (Suc k)
  show ?case
  proof (cases "malloc_ok env (mallocs io)")
    case False
    then have "allocate_rows env (Suc k) cols acc io
                 = (None, printf ''Memory allocation failed!'' (io\<lparr>mallocs := mallocs io + 1\<rparr>))"
      by (simp add: malloc_def)
    moreover have "failed_once io (printf ''Memory allocation failed!'' (io\<lparr>mallocs := mallocs io + 1\<rparr>))"
      by (simp add: failed_once_def printf_def)
    moreover have "\<exists>j<Suc k. \<not> malloc_ok env (mallocs io + j)"
      using False by (intro exI[of _ 0]) simp
    ultimately show ?thesis
      by blast
  next
    case True
    define io1 where "io1 = io\<lparr>mallocs := mallocs io + 1\<rparr>"
    define acc1 where "acc1 = acc @ [map (malloc_junk env (mallocs io)) [0..<cols]]"
    have step: "allocate_rows env (Suc k) cols acc io = allocate_rows env k cols acc1 io1"
      using True by (simp add: malloc_def io1_def acc1_def)
    have m1: "mallocs io1 = Suc (mallocs io)"
      by (simp add: io1_def)
    from Suc.IH[of acc1 io1] show ?thesis
    proof
      assume "\<exists>io'. allocate_rows env k cols acc1 io1 = (None, io') \<and> failed_once io1 io'
                \<and> (\<exists>j<k. \<not> malloc_ok env (mallocs io1 + j))"
      then obtain io' j where f: "allocate_rows env k cols acc1 io1 = (None, io')"
          "failed_once io1 io'" "j < k" "\<not> malloc_ok env (mallocs io1 + j)"
        by blast
      have "failed_once io io'"
        using f(2) by (simp add: failed_once_def io1_def)
      moreover have "\<exists>j<Suc k. \<not> malloc_ok env (mallocs io + j)"
        using f(3,4) m1 by (intro exI[of _ "Suc j"]) simp
      moreover have "allocate_rows env (Suc k) cols acc io = (None, io')"
        using step f(1) by simp
      ultimately show ?thesis
        by (intro disjI1 exI[of _ io']) simp
    next
      assume ok: "allocate_rows env k cols acc1 io1
          = (Some (acc1 @ map (\<lambda>j. map (malloc_junk env (mallocs io1 + j)) [0..<cols]) [0..<k]),
             io1\<lparr>mallocs := mallocs io1 + k\<rparr>)
        \<and> (\<forall>j<k. malloc_ok env (mallocs io1 + j))"
      have all: "\<forall>j<Suc k. malloc_ok env (mallocs io + j)"
      proof (intro allI impI)
        fix j assume "j < Suc k"
        then show "malloc_ok env (mallocs io + j)"
          using True ok m1 by (cases j) simp_all
      qed
      have "[0..<Suc k] = 0 # map Suc [0..<k]"
        by (simp only: upt_conv_Cons[of 0 "Suc k"] map_Suc_upt zero_less_Suc)
      then have "acc @ map (\<lambda>j. map (malloc_junk env (mallocs io + j)) [0..<cols]) [0..<Suc k]
               = acc1 @ map (\<lambda>j. map (malloc_junk env (mallocs io1 + j)) [0..<cols]) [0..<k]"
        by (simp add: acc1_def m1 comp_def del: upt_Suc)
      moreover have "io\<lparr>mallocs := mallocs io + Suc k\<rparr> = io1\<lparr>mallocs := mallocs io1 + k\<rparr>"
        by (simp add: io1_def)
      ultimately show ?thesis
        using step ok all by simp
    qed
  qed
qed

lemma failed_once_trans_ok:
  "failed_once (io\<lparr>mallocs := n\<rparr>) io' \<Longrightarrow> failed_once io io'"
  by (simp add: failed_once_def)

lemma allocate_matrix_cases:
  "(\<exists>io'. allocate_matrix env rows cols io = (None, io') \<and> failed_once io io'
          \<and> (\<exists>j<rows + 1. \<not> malloc_ok env (mallocs io + j)))
   \<or> (allocate_matrix env rows cols io
        = (Some (map (\<lambda>j. map (malloc_junk env (mallocs io + 1 + j)) [0..<cols]) [0..<rows]),
           io\<lparr>mallocs := mallocs io + 1 + rows\<rparr>)
      \<and> (\<forall>j<rows + 1. malloc_ok env (mallocs io + j)))"
proof (cases "malloc_ok env (mallocs io)")
  case False
  then have "allocate_matrix env rows cols io
               = (None, printf ''Memory allocation failed!'' (io\<lparr>mallocs := mallocs io + 1\<rparr>))"
    by (simp add: allocate_matrix_def malloc_def)
  moreover have "failed_once io (printf ''Memory allocation failed!'' (io\<lparr>mallocs := mallocs io + 1\<rparr>))"
    by (simp add: failed_once_def printf_def)
  moreover have "\<exists>j<rows + 1. \<not> malloc_ok env (mallocs io + j)"
    using False by (intro exI[of _ 0]) simp
  ultimately show ?thesis
    by (intro disjI1) simp
next
  case True
  define io1 where "io1 = io\<lparr>mallocs := mallocs io + 1\<rparr>"
  have step: "allocate_matrix env rows cols io = allocate_rows env rows cols [] io1"
    using True by (simp add: allocate_matrix_def malloc_def io1_def)
  have m1: "mallocs io1 = mallocs io + 1"
    by (simp add: io1_def)
  from allocate_rows_cases[of env rows cols "[]" io1] show ?thesis
  proof
    assume "\<exists>io'. allocate_rows env rows cols [] io1 = (None, io') \<and> failed_once io1 io'
                \<and> (\<exists>j<rows. \<not> malloc_ok env (mallocs io1 + j))"
    then obtain io' j where f: "allocate_rows env rows cols [] io1 = (None, io')"
        "failed_once io1 io'" "j < rows" "\<not> malloc_ok env (mallocs io1 + j)"
      by blast
    have "failed_once io io'"
      using f(2) unfolding io1_def by (rule failed_once_trans_ok)
    moreover have "\<exists>j<rows + 1. \<not> malloc_ok env (mallocs io + j)"
      using f(3,4) m1 by (intro exI[of _ "Suc j"]) simp
    moreover have "allocate_matrix env rows cols io = (None, io')"
      using step f(1) by simp
    ultimately show ?thesis
      by (intro disjI1 exI[of _ io']) simp
  next
    assume ok: "allocate_rows env rows cols [] io1
        = (Some ([] @ map (\<lambda>j. map (malloc_junk env (mallocs io1 + j)) [0..<cols]) [0..<rows]),
           io1\<lparr>mallocs := mallocs io1 + rows\<rparr>)
      \<and> (\<forall>j<rows. malloc_ok env (mallocs io1 + j))"
    have all: "\<forall>j<rows + 1. malloc_ok env (mallocs io + j)"
    proof (intro allI impI)
      fix j assume "j < rows + 1"
      then show "malloc_ok env (mallocs io + j)"
        using True ok m1 by (cases j) simp_all
    qed
    have "io1\<lparr>mallocs := mallocs io1 + rows\<rparr> = io\<lparr>mallocs := mallocs io + 1 + rows\<rparr>"
      by (simp add: io1_def)
    then show ?thesis
      using step ok all m1 by simp
  qed
qed

lemma allocate_vector_cases:
  "(\<exists>io'. allocate_vector env n io = (None, io') \<and> failed_once io io'
          \<and> \<not> malloc_ok env (mallocs io))
   \<or> (allocate_vector env n io
        = (Some (map (malloc_junk env (mallocs io)) [0..<n]), io\<lparr>mallocs := mallocs io + 1\<rparr>)
      \<and> malloc_ok env (mallocs io))"
  by (cases "malloc_ok env (mallocs io)")
     (simp_all add: allocate_vector_def malloc_def failed_once_def printf_def)

lemma allocate_and_fill_cases:
  "(\<exists>io'. allocate_and_fill env N io = Inr (None, io') \<and> failed_once io io'
          \<and> (\<exists>j<N + 3. \<not> malloc_ok env (mallocs io + j)))
   \<or> (allocate_and_fill env N io
        = bindE (fill_random env (fresh_mem env (mallocs io) N) N N (io\<lparr>mallocs := mallocs io + N + 3\<rparr>))
            (\<lambda>(s, io4). Inr (Some s, io4))
      \<and> (\<forall>j<N + 3. malloc_ok env (mallocs io + j)))"
proof -
  from allocate_matrix_cases[of env N N io] show ?thesis
  proof
    assume "\<exists>io'. allocate_matrix env N N io = (None, io') \<and> failed_once io io'
          \<and> (\<exists>j<N + 1. \<not> malloc_ok env (mallocs io + j))"
    then obtain io' j where f: "allocate_matrix env N N io = (None, io')" "failed_once io io'"
        "j < N + 1" "\<not> malloc_ok env (mallocs io + j)"
      by blast
    have "allocate_and_fill env N io = Inr (None, io')"
      using f(1) by (simp add: allocate_and_fill_def)
    moreover have "\<exists>j<N + 3. \<not> malloc_ok env (mallocs io + j)"
      using f(3,4) by (intro exI[of _ j]) simp
    ultimately show ?thesis
      using f(2) by (intro disjI1 exI[of _ io']) simp
  next
    assume m: "allocate_matrix env N N io
        = (Some (map (\<lambda>j. map (malloc_junk env (mallocs io + 1 + j)) [0..<N]) [0..<N]),
           io\<lparr>mallocs := mallocs io + 1 + N\<rparr>)
      \<and> (\<forall>j<N + 1. malloc_ok env (mallocs io + j))"
    define io1 where "io1 = io\<lparr>mallocs := mallocs io + 1 + N\<rparr>"
    have m1: "mallocs io1 = mallocs io + N + 1"
      by (simp add: io1_def)
    from allocate_vector_cases[of env N io1] show ?thesis
    proof
      assume "\<exists>io'. allocate_vector env N io1 = (None, io') \<and> failed_once io1 io'
          \<and> \<not> malloc_ok env (mallocs io1)"
      then obtain io' where f: "allocate_vector env N io1 = (None, io')" "failed_once io1 io'"
          "\<not> malloc_ok env (mallocs io1)"
        by blast
      have "allocate_and_fill env N io = Inr (None, io')"
        using m f(1) by (simp add: allocate_and_fill_def io1_def)
      moreover have "failed_once io io'"
        using f(2) unfolding io1_def by (rule failed_once_trans_ok)
      moreover have "\<exists>j<N + 3. \<not> malloc_ok env (mallocs io + j)"
        using f(3) m1 by (intro exI[of _ "N + 1"]) simp
      ultimately show ?thesis
        by (intro disjI1 exI[of _ io']) simp
    next
      assume v: "allocate_vector env N io1
        = (Some (map (malloc_junk env (mallocs io1)) [0..<N]), io1\<lparr>mallocs := mallocs io1 + 1\<rparr>)
        \<and> malloc_ok env (mallocs io1)"
      define io2 where "io2 = io1\<lparr>mallocs := mallocs io1 + 1\<rparr>"
      have m2: "mallocs io2 = mallocs io + N + 2"
        by (simp add: io2_def m1)
      from allocate_vector_cases[of env N io2] show ?thesis
      proof
        assume "\<exists>io'. allocate_vector env N io2 = (None, io') \<and> failed_once io2 io'
            \<and> \<not> malloc_ok env (mallocs io2)"
        then obtain io' where f: "allocate_vector env N io2 = (None, io')" "failed_once io2 io'"
            "\<not> malloc_ok env (mallocs io2)"
          by blast
        have "allocate_and_fill env N io = Inr (None, io')"
          using m v f(1) by (simp add: allocate_and_fill_def io1_def io2_def)
        moreover have "failed_once io io'"
          using f(2) unfolding io2_def io1_def by (simp add: failed_once_def)
        moreover have "\<exists>j<N + 3. \<not> malloc_ok env (mallocs io + j)"
          using f(3) m2 by (intro exI[of _ "N + 2"]) simp
        ultimately show ?thesis
          by (intro disjI1 exI[of _ io']) simp
      next
        assume r: "allocate_vector env N io2
          = (Some (map (malloc_junk env (mallocs io2)) [0..<N]), io2\<lparr>mallocs := mallocs io2 + 1\<rparr>)
          \<and> malloc_ok env (mallocs io2)"
        have io3: "io2\<lparr>mallocs := mallocs io2 + 1\<rparr> = io\<lparr>mallocs := mallocs io + N + 3\<rparr>"
          by (simp add: io2_def io1_def)
        have all: "\<forall>j<N + 3. malloc_ok env (mallocs io + j)"
        proof (intro allI impI)
          fix j assume j: "j < N + 3"
          consider "j < N + 1" | "j = N + 1" | "j = N + 2"
            using j by linarith
          then show "malloc_ok env (mallocs io + j)"
          proof cases
            case 1
            then show ?thesis using m by simp
          next
            case 2
            then show ?thesis using v m1 by simp
          next
            case 3
            then show ?thesis using r m2 by simp
          qed
        qed
        have am: "allocate_matrix env N N io
                    = (Some (matrix (fresh_mem env (mallocs io) N)), io1)"
          using m by (simp add: io1_def fresh_mem_def)
        have av: "allocate_vector env N io1 = (Some (vector (fresh_mem env (mallocs io) N)), io2)"
          using v m1 by (simp add: io2_def fresh_mem_def)
        have ar: "allocate_vector env N io2
                    = (Some (result (fresh_mem env (mallocs io) N)), io\<lparr>mallocs := mallocs io + N + 3\<rparr>)"
          using r m2 io3 by (simp add: fresh_mem_def)
        have "allocate_and_fill env N io
                = bindE (fill_random env (fresh_mem env (mallocs io) N) N N
                           (io\<lparr>mallocs := mallocs io + N + 3\<rparr>))
                    (\<lambda>(s, io4). Inr (Some s, io4))"
          by (simp add: allocate_and_fill_def am av ar) (simp add: fresh_mem_def)
        then show ?thesis
          using all by simp
      qed
    qed
  qed
qed

lemma for_each_prefix_total:
  assumes "I [] s"
    and "\<And>pre x t. x \<in> set xs \<Longrightarrow> I pre t \<Longrightarrow> \<exists>t'. body x t = Inr t' \<and> I (pre @ [x]) t'"
  shows "\<exists>s'. for_each xs body s = Inr s' \<and> I xs s'"
proof -
  have "\<And>pre s. I pre s \<Longrightarrow> set ys \<subseteq> set xs
          \<Longrightarrow> \<exists>s'. for_each ys body s = Inr s' \<and> I (pre @ ys) s'" for ys
  proof (induction ys)
    case Nil
    then show ?case by simp
  next
    case (Cons y ys)
    from Cons.prems obtain t where t: "body y s = Inr t" "I (pre @ [y]) t"
      using assms(2)[of y pre s] by auto
    from Cons.IH[of "pre @ [y]" t] t(2) Cons.prems(2)
    obtain s' where "for_each ys body t = Inr s'" "I ((pre @ [y]) @ ys) s'"
      by auto
    then show ?case
      using t(1) by simp
  qed
  from this[of "[]" s xs] assms(1) show ?thesis
    by simp
qed

lemma random_unit_interval:
  assumes "\<forall>k. rand_out env k \<le> RAND_MAX env" "0 < RAND_MAX env"
  shows "unit_interval (fst (random_unit env io))"
  using assms by (simp add: random_unit_def rand_def unit_interval_def)

lemma fill_matrix_cell_step:
  assumes "\<forall>k. rand_out env k \<le> RAND_MAX env" "0 < RAND_MAX env"
    and "i < rows" "j < cols" "matrix_filled s0 rows cols written t"
  shows "\<exists>t'. fill_matrix_cell env i j t = Inr t' \<and> matrix_filled s0 rows cols (written @ [(i, j)]) t'"
proof -
  obtain s io where t: "t = (s, io)"
    by (cases t)
  obtain x io' where r: "random_unit env io = (x, io')"
    by (cases "random_unit env io")
  have x: "unit_interval x"
    using random_unit_interval[OF assms(1,2), of io] r by simp
  have shape: "length (matrix s) = rows" "\<forall>i<rows. length (matrix s ! i) = cols"
    and rest: "vector s = vector s0" "result s = result s0"
      "\<forall>p\<in>set written. unit_interval (matrix s ! fst p ! snd p)"
    using assms(5) by (simp_all add: matrix_filled_def t)
  define s' where "s' = s\<lparr>matrix := (matrix s)[i := (matrix s ! i)[j := x]]\<rparr>"
  have run: "fill_matrix_cell env i j t = Inr (s', io')"
    using shape assms(3,4) by (simp add: fill_matrix_cell_def t r s'_def)
  have cell: "matrix s' ! a ! b = (if a = i \<and> b = j then x else matrix s ! a ! b)" for a b
    using shape assms(3,4) by (cases "a = i") (simp_all add: s'_def nth_list_update)
  have "\<forall>a<rows. length (matrix s' ! a) = cols"
    using shape assms(3) by (auto simp: s'_def nth_list_update)
  moreover have "\<forall>p\<in>set (written @ [(i, j)]). unit_interval (matrix s' ! fst p ! snd p)"
    using rest(3) x by (auto simp: cell)
  ultimately have "matrix_filled s0 rows cols (written @ [(i, j)]) (s', io')"
    using shape(1) rest(1,2) by (simp add: matrix_filled_def s'_def)
  then show ?thesis
    using run by blast
qed

lemma fill_vector_cell_step:
  assumes "\<forall>k. rand_out env k \<le> RAND_MAX env" "0 < RAND_MAX env"
    and "j < cols" "vector_filled s1 cols written t"
  shows "\<exists>t'. fill_vector_cell env j t = Inr t' \<and> vector_filled s1 cols (written @ [j]) t'"
proof -
  obtain s io where t: "t = (s, io)"
    by (cases t)
  obtain x io' where r: "random_unit env io = (x, io')"
    by (cases "random_unit env io")
  have x: "unit_interval x"
    using random_unit_interval[OF assms(1,2), of io] r by simp
  have inv: "matrix s = matrix s1" "result s = result s1" "length (vector s) = cols"
      "\<forall>j\<in>set written. unit_interval (vector s ! j)"
    using assms(4) by (simp_all add: vector_filled_def t)
  have run: "fill_vector_cell env j t = Inr (s\<lparr>vector := (vector s)[j := x]\<rparr>, io')"
    using inv(3) assms(3) by (simp add: fill_vector_cell_def t r)
  have "\<forall>k\<in>set (written @ [j]). unit_interval ((vector s)[j := x] ! k)"
    using inv(3,4) assms(3) x by (auto simp: nth_list_update)
  then have "vector_filled s1 cols (written @ [j]) (s\<lparr>vector := (vector s)[j := x]\<rparr>, io')"
    using inv by (simp add: vector_filled_def)
  then show ?thesis
    using run by blast
qed

lemma fill_random_total:
  assumes "\<forall>k. rand_out env k \<le> RAND_MAX env" "0 < RAND_MAX env" "allocated s rows cols"
  shows "\<exists>s' io'. fill_random env s rows cols io = Inr (s', io')
           \<and> allocated s' rows cols \<and> result s' = result s
           \<and> (\<forall>i<rows. \<forall>j<cols. unit_interval (matrix s' ! i ! j))
           \<and> (\<forall>j<cols. unit_interval (vector s' ! j))"
proof -
  define cells where "cells = concat (map (\<lambda>i. map (Pair i) [0..<cols]) [0..<rows])"
  have cells: "p \<in> set cells \<longleftrightarrow> fst p < rows \<and> snd p < cols" for p
    by (cases p) (auto simp: cells_def image_iff)
  have phase1: "for_loop 0 rows 1 (\<lambda>i. for_loop 0 cols 1 (\<lambda>j. fill_matrix_cell env i j)) (s, io)
                  = for_each cells (\<lambda>p. fill_matrix_cell env (fst p) (snd p)) (s, io)"
    unfolding cells_def for_each_concat for_each_map for_loop_unit by simp
  have start: "matrix_filled s rows cols [] (s, io)"
    using assms(3) by (simp add: matrix_filled_def allocated_def list_all_length)
  have "\<exists>t. for_each cells (\<lambda>p. fill_matrix_cell env (fst p) (snd p)) (s, io) = Inr t
            \<and> matrix_filled s rows cols cells t"
  proof (rule for_each_prefix_total[where I = "matrix_filled s rows cols", OF start])
    fix pre x t assume "x \<in> set cells" "matrix_filled s rows cols pre t"
    then show "\<exists>t'. fill_matrix_cell env (fst x) (snd x) t = Inr t'
                 \<and> matrix_filled s rows cols (pre @ [x]) t'"
      using fill_matrix_cell_step[OF assms(1,2), of "fst x" rows "snd x" cols s pre t] cells[of x]
      by simp
  qed
  then obtain s1 io1 where one: "for_each cells (\<lambda>p. fill_matrix_cell env (fst p) (snd p)) (s, io)
        = Inr (s1, io1)" "matrix_filled s rows cols cells (s1, io1)"
    by (metis surj_pair)
  have m1: "length (matrix s1) = rows" "\<forall>i<rows. length (matrix s1 ! i) = cols"
      "vector s1 = vector s" "result s1 = result s"
      "\<forall>p\<in>set cells. unit_interval (matrix s1 ! fst p ! snd p)"
    using one(2) by (simp_all add: matrix_filled_def)
  have start2: "vector_filled s1 cols [] (s1, io1)"
    using m1(3) assms(3) by (simp add: vector_filled_def allocated_def)
  have "\<exists>t. for_each [0..<cols] (fill_vector_cell env) (s1, io1) = Inr t
            \<and> vector_filled s1 cols [0..<cols] t"
  proof (rule for_each_prefix_total[where I = "vector_filled s1 cols", OF start2])
    fix pre x t assume "x \<in> set [0..<cols]" "vector_filled s1 cols pre t"
    then show "\<exists>t'. fill_vector_cell env x t = Inr t' \<and> vector_filled s1 cols (pre @ [x]) t'"
      using fill_vector_cell_step[OF assms(1,2), of x cols s1 pre t] by simp
  qed
  then obtain s2 io2 where two: "for_each [0..<cols] (fill_vector_cell env) (s1, io1) = Inr (s2, io2)"
      "vector_filled s1 cols [0..<cols] (s2, io2)"
    by (metis surj_pair)
  have m2: "matrix s2 = matrix s1" "result s2 = result s1" "length (vector s2) = cols"
      "\<forall>j\<in>set [0..<cols]. unit_interval (vector s2 ! j)"
    using two(2) by (simp_all add: vector_filled_def)
  have run: "fill_random env s rows cols io = Inr (s2, io2)"
    unfolding fill_random_def phase1 one(1) using two(1) by (simp add: for_loop_unit_Suc)
  have "allocated s2 rows cols"
    using m1 m2 assms(3) by (simp add: allocated_def list_all_length)
  moreover have "\<forall>i<rows. \<forall>j<cols. unit_interval (matrix s2 ! i ! j)"
    using m1(5) m2(1) cells by force
  moreover have "\<forall>j<cols. unit_interval (vector s2 ! j)"
    using m2(4) by simp
  ultimately show ?thesis
    using run m1(4) m2(2) by simp
qed

section \<open>Frames, visits and the selection loop\<close>

text \<open>
  Invariants of the counting loop give the frame of the kernels and of \<^verbatim>\<open>fill_random\<close>;
  the tiled kernel in closed form; the trace of the tiled nest; and the loop that discards
  a line, which returns only if the input still holds a newline.
\<close>

lemma for_loop_invariant:
  "for_loop i bound step body s = Inr s' \<Longrightarrow> P s
     \<Longrightarrow> (\<And>k t t'. P t \<Longrightarrow> body k t = Inr t' \<Longrightarrow> P t') \<Longrightarrow> P s'"
proof (induction i bound step body s rule: for_loop.induct)
  case (1 i bound step body s)
  show ?case
  proof (cases "i < bound")
    case False
    then show ?thesis
      using 1(2,3) by (subst (asm) for_loop.simps) simp
  next
    case True
    from 1(2) True obtain t where t: "body i s = Inr t" "step \<noteq> 0"
        "for_loop (i + step) bound step body t = Inr s'"
      by (subst (asm) for_loop.simps) (auto split: sum.splits if_splits)
    have "P t"
      using 1(3) t(1) by (rule 1(4))
    then show ?thesis
      using True t 1(4) by (intro 1(1)[of t]) simp_all
  qed
qed

lemma fill_random_keeps_result:
  assumes "fill_random env s rows cols io = Inr (s', io')"
  shows "result s' = result s"
proof -
  define P where "P = (\<lambda>t :: real mem \<times> io. result (fst t) = result s)"
  have cell: "P t'" if "P t" "fill_matrix_cell env i j t = Inr t'" for i j t t'
    using that by (cases t) (auto simp: P_def fill_matrix_cell_def split: prod.splits if_splits)
  have vcell: "P t'" if "P t" "fill_vector_cell env i t = Inr t'" for i t t'
    using that by (cases t) (auto simp: P_def fill_vector_cell_def split: prod.splits if_splits)
  have row: "P t'" if "P t" "for_loop 0 cols 1 (\<lambda>j. fill_matrix_cell env i j) t = Inr t'" for i t t'
    using that(2,1) by (rule for_loop_invariant) (rule cell)
  from assms obtain t where t: "for_loop 0 rows 1 (\<lambda>i. for_loop 0 cols 1 (\<lambda>j. fill_matrix_cell env i j)) (s, io) = Inr t"
      "for_loop 0 cols 1 (\<lambda>i. fill_vector_cell env i) t = Inr (s', io')"
    by (auto simp: fill_random_def bindE_eq_Inr)
  have "P (s, io)"
    by (simp add: P_def)
  with t(1) have "P t"
    by (rule for_loop_invariant) (rule row)
  with t(2) have "P (s', io')"
    by (rule for_loop_invariant) (rule vcell)
  then show ?thesis
    by (simp add: P_def)
qed

lemma allocate_and_fill_result:
  assumes "allocate_and_fill env N io = Inr (Some s0, io')"
  shows "result s0 = map (malloc_junk env (mallocs io + N + 2)) [0..<N]"
proof -
  from allocate_and_fill_cases[of env N io] assms
  have "bindE (fill_random env (fresh_mem env (mallocs io) N) N N (io\<lparr>mallocs := mallocs io + N + 3\<rparr>))
            (\<lambda>(s, io4). Inr (Some s, io4)) = Inr (Some s0, io')"
    by auto
  then have "fill_random env (fresh_mem env (mallocs io) N) N N (io\<lparr>mallocs := mallocs io + N + 3\<rparr>)
               = Inr (s0, io')"
    by (auto simp: bindE_eq_Inr)
  from fill_random_keeps_result[OF this] show ?thesis
    by (simp add: fresh_mem_def)
qed

lemma openmp_tiled_result:
  assumes "0 < T" "T dvd N" "allocated s N N"
  shows "openmp_tiled_mvm s N N T
           = Inr (s\<lparr>result := map (\<lambda>k. dot_from (result s ! k) (matrix s ! k) (vector s) [0..<N])
                                 [0..<N]\<rparr>)"
proof -
  have fit: "tiles_fit 0 N N N T"
    using assms(1,2) by (simp add: tiles_fit_square)
  have tc: "tile_count 0 N T * T = N"
    using tile_count_dvd[OF assms(1), of N 0] assms(2) by simp
  from tile_kernel_result[OF assms(1,3) fit] show ?thesis
    by (simp add: openmp_tiled_mvm_def tc cong: map_cong)
qed

lemma for_each_log: "for_each xs (\<lambda>x tr. Inr (tr @ [x])) tr0 = Inr (tr0 @ xs)"
  by (induction xs arbitrary: tr0) simp_all

lemma tiled_visits_order:
  assumes "0 < T"
  shows "tiled_visits rows cols T
           = Inr (nest_order (tile_starts 0 rows T) (tile_starts 0 cols T) T)"
proof -
  have "(\<lambda>(i, j, ii, jj) tr. Inr (tr @ [(i, j, ii, jj)]))
          = (\<lambda>x (tr :: (nat \<times> nat \<times> nat \<times> nat) list). (Inr (tr @ [x]) :: fault + _))"
    by (auto simp: fun_eq_iff)
  then show ?thesis
    unfolding tiled_visits_def tile_nest_order[OF assms] by (simp add: for_each_log)
qed

lemma count_in_row:
  "length (filter (\<lambda>p. p = (k, l)) ps) = length (filter (\<lambda>j. j = l) (visited_in_row k ps))"
  by (induction ps) (auto simp: visited_in_row_def)

lemma count_upt: "length (filter (\<lambda>j. j = l) [0..<n]) = (if l < n then 1 else 0)"
  by (induction n) auto

lemma allgather_fits:
  assumes "length bufs = nprocs" "list_all (\<lambda>b. length b = N) bufs" "rank < nprocs"
  shows "\<exists>r. MPI_Allgather_IN_PLACE bufs (N div nprocs) rank = Inr r"
proof -
  have "nprocs * (N div nprocs) \<le> N"
    by simp
  then have "list_all (\<lambda>b. length bufs * (N div nprocs) \<le> length b) bufs"
    using assms by (simp add: list_all_iff)
  then show ?thesis
    using assms(1,3) by (simp add: MPI_Allgather_IN_PLACE_def)
qed

lemma accumulate_frame: "same_inputs s t \<Longrightarrow> accumulate i j t = Inr t' \<Longrightarrow> same_inputs s t'"
  by (auto simp: accumulate_def same_inputs_def split: if_splits)

lemma zero_result_frame: "same_inputs s t \<Longrightarrow> zero_result i t = Inr t' \<Longrightarrow> same_inputs s t'"
  by (auto simp: zero_result_def same_inputs_def split: if_splits)

lemma row_product_frame:
  assumes "same_inputs s t" "row_product cols i t = Inr t'"
  shows "same_inputs s t'"
proof -
  from assms(2) obtain t0 where t0: "zero_result i t = Inr t0"
      "for_loop 0 cols 1 (accumulate i) t0 = Inr t'"
    by (auto simp: row_product_def bindE_eq_Inr)
  have "same_inputs s t0"
    using assms(1) t0(1) by (rule zero_result_frame)
  with t0(2) show ?thesis
    by (rule for_loop_invariant) (rule accumulate_frame)
qed

lemma row_loop_frame:
  assumes "for_loop a b 1 (row_product cols) s = Inr s'"
  shows "same_inputs s s'"
  using assms by (rule for_loop_invariant) (simp add: same_inputs_def, rule row_product_frame)

lemma tile_nest_frame:
  assumes "tile_nest a b cols T (\<lambda>i j ii jj. accumulate ii jj) s = Inr s'"
  shows "same_inputs s s'"
proof -
  have l4: "same_inputs s t'"
    if "same_inputs s t" "for_loop j (j + T) 1 (\<lambda>jj. accumulate ii jj) t = Inr t'" for j ii t t'
    using that(2,1) by (rule for_loop_invariant) (rule accumulate_frame)
  have l3: "same_inputs s t'"
    if "same_inputs s t"
      "for_loop i (i + T) 1 (\<lambda>ii. for_loop j (j + T) 1 (\<lambda>jj. accumulate ii jj)) t = Inr t'"
    for i j t t'
    using that(2,1) by (rule for_loop_invariant) (rule l4)
  have l2: "same_inputs s t'"
    if "same_inputs s t"
      "for_loop 0 cols T (\<lambda>j. for_loop i (i + T) 1
         (\<lambda>ii. for_loop j (j + T) 1 (\<lambda>jj. accumulate ii jj))) t = Inr t'"
    for i t t'
    using that(2,1) by (rule for_loop_invariant) (rule l3)
  have "same_inputs s s"
    by (simp add: same_inputs_def)
  with assms[unfolded tile_nest_def] show ?thesis
    by (rule for_loop_invariant) (rule l2)
qed

lemma flush_line_needs_newline:
  assumes "flush_line inp = Some rest"
  shows "CHR 0x0A \<in> set inp"
proof (rule flush_line.raw_induct[where P = "\<lambda>inp rest. CHR 0x0A \<in> set inp", OF _ assms], goal_cases)
  case (1 flush inp rest)
  show ?case
  proof (cases inp)
    case Nil
    then have "flush [] = Some rest"
      using 1(2) by simp
    then have "CHR 0x0A \<in> set ([] :: string)"
      by (rule 1(1))
    then show ?thesis by simp
  next
    case (Cons c cs)
    show ?thesis
    proof (cases "c = CHR 0x0A")
      case True
      then show ?thesis using Cons by simp
    next
      case False
      then have "flush cs = Some rest"
        using 1(2) Cons by simp
      then have "CHR 0x0A \<in> set cs"
        by (rule 1(1))
      then show ?thesis using Cons by simp
    qed
  qed
qed

lemma flush_line_hangs: "CHR 0x0A \<notin> set inp \<Longrightarrow> flush_line inp = None"
  using flush_line_needs_newline[of inp] by (cases "flush_line inp") auto

lemma selection_accepts: "read_choice always_max [CHR ''7'', CHR 0x0A, CHR ''3'', CHR 0x0A] io0
    = Some (3, [CHR 0x0A], printf ''Invalid choice! Please enter a number between 1 and 5: '' io0)"
  apply (subst read_choice.simps)
  apply (simp add: scanf_d_def isspace_def isdigit_def decimal_def INT_MIN_def INT_MAX_def)
  apply (subst flush_line.simps)
  apply simp
  apply (subst read_choice.simps)
  apply (simp add: scanf_d_def isspace_def isdigit_def decimal_def printf_def INT_MIN_def INT_MAX_def)
  done

lemma fill_random_constant:
  assumes "fill_random always_max ones 64 64 io = Inr (s', io')"
  shows "s' = ones"
proof -
  define P where "P = (\<lambda>t :: real mem \<times> io. fst t = ones)"
  have unit: "fst (random_unit always_max io) = 1" for io
    by (simp add: random_unit_def rand_def)
  have cell: "P t'" if "P t" "fill_matrix_cell always_max i j t = Inr t'" for i j t t'
  proof -
    obtain s io where t: "t = (s, io)" by (cases t)
    obtain x io1 where r: "random_unit always_max io = (x, io1)"
      by (cases "random_unit always_max io")
    have x: "x = 1"
      using unit[of io] r by simp
    have s: "s = ones" using that(1) by (simp add: P_def t)
    from that(2) r have b: "i < 64 \<and> j < 64"
      by (auto simp: fill_matrix_cell_def t s split: if_splits)
    then have inner: "(replicate 64 (1::real))[j := 1] = replicate 64 1"
      by (simp add: list_update_same_conv)
    have "(replicate 64 (replicate 64 (1::real)))[i := (replicate 64 1)[j := 1]]
                 = replicate 64 (replicate 64 1)"
      unfolding inner using b by (simp add: list_update_same_conv)
    then show ?thesis
      using that(2) b r x by (auto simp: fill_matrix_cell_def t s P_def split: if_splits)
  qed
  have vcell: "P t'" if "P t" "fill_vector_cell always_max i t = Inr t'" for i t t'
  proof -
    obtain s io where t: "t = (s, io)" by (cases t)
    obtain x io1 where r: "random_unit always_max io = (x, io1)"
      by (cases "random_unit always_max io")
    have x: "x = 1"
      using unit[of io] r by simp
    have s: "s = ones" using that(1) by (simp add: P_def t)
    from that(2) r have b: "i < 64"
      by (auto simp: fill_vector_cell_def t s split: if_splits)
    then have "(replicate 64 (1::real))[i := 1] = replicate 64 1"
      by (simp add: list_update_same_conv)
    then show ?thesis
      using that(2) b r x by (auto simp: fill_vector_cell_def t s P_def split: if_splits)
  qed
  have row: "P t'"
    if "P t" "for_loop 0 64 1 (\<lambda>j. fill_matrix_cell always_max i j) t = Inr t'" for i t t'
    using that(2,1) by (rule for_loop_invariant) (rule cell)
  from assms obtain t where t:
      "for_loop 0 64 1 (\<lambda>i. for_loop 0 64 1 (\<lambda>j. fill_matrix_cell always_max i j)) (ones, io) = Inr t"
      "for_loop 0 64 1 (\<lambda>i. fill_vector_cell always_max i) t = Inr (s', io')"
    by (auto simp: fill_random_def bindE_eq_Inr)
  have "P (ones, io)"
    by (simp add: P_def)
  with t(1) have "P t"
    by (rule for_loop_invariant) (rule row)
  with t(2) have "P (s', io')"
    by (rule for_loop_invariant) (rule vcell)
  then show ?thesis
    by (simp add: P_def)
qed

lemma driver_passes_ones: "\<exists>io'. allocate_and_fill always_max 64 io0 = Inr (Some ones, io')"
proof -
  have fresh: "fresh_mem always_max 0 64 = ones"
    by (simp add: fresh_mem_def map_replicate_const)
  have a: "allocated ones 64 64"
    by (simp add: allocated_def list_all_iff)
  have "\<forall>k. rand_out always_max k \<le> RAND_MAX always_max" "0 < RAND_MAX always_max"
    by simp_all
  from fill_random_total[OF this a, of "io0\<lparr>mallocs := 67\<rparr>"]
  obtain s' io' where run: "fill_random always_max ones 64 64 (io0\<lparr>mallocs := 67\<rparr>) = Inr (s', io')"
    by blast
  have s': "s' = ones"
    using run by (rule fill_random_constant)
  from allocate_and_fill_cases[of always_max 64 io0]
  have "allocate_and_fill always_max 64 io0
          = bindE (fill_random always_max (fresh_mem always_max (mallocs io0) 64) 64 64
                     (io0\<lparr>mallocs := mallocs io0 + 64 + 3\<rparr>))
              (\<lambda>(s, io4). Inr (Some s, io4))"
    by auto
  then show ?thesis
    using run s' fresh by simp
qed

lemma read_choice_accepts_1_to_5:
  assumes "read_choice env inp io = Some r"
  shows "1 \<le> fst r \<and> fst r \<le> 5"
proof (rule read_choice.raw_induct[where P = "\<lambda>env inp io r. 1 \<le> fst r \<and> fst r \<le> 5", OF _ assms],
    goal_cases)
  case prems: 1
  from prems(2) show ?case
    by (auto split: prod.splits scanned.splits if_splits simp: Option.bind_eq_Some_conv
        dest: prems(1))
qed

lemma tiled_is_sequential_plus_initial:
  fixes s :: "'a::semiring_0 mem"
  assumes "0 < T" "T dvd N" "allocated s N N"
  shows "\<exists>t q. openmp_tiled_mvm s N N T = Inr t \<and> sequential_mvm s N N = Inr q
           \<and> (\<forall>i<N. result t ! i = result s ! i + result q ! i)"
  using openmp_tiled_result[OF assms] sequential_mvm_result[OF assms(3)]
  by (simp add: dot_from_sum)

lemma selection_wraps:
  "read_choice always_max (''4294967299'' @ [CHR 0x0A]) io0 = Some (3, [CHR 0x0A], io0)"
  apply (subst read_choice.simps)
  apply (simp add: scanf_d_def isspace_def isdigit_def decimal_def INT_MIN_def INT_MAX_def wrap_int_def)
  done

lemma sign_at_end_of_input: "scanf_d env ''-'' = (NoMatch, [])"
  by (simp add: scanf_d_def isspace_def isdigit_def)

section \<open>The loop over the sizes\<close>

text \<open>
  The loop of \<^verbatim>\<open>main\<close> runs \<^verbatim>\<open>run_programs\<close> for the sizes of \<open>sizes_from\<close>, one after
  the other. A run whose allocations succeed and whose kernel stays inside the arrays reads
  the clock twice and writes one record; a run whose allocation fails stops at the call of
  \<^verbatim>\<open>malloc\<close> that failed.
\<close>

lemma sizes_from_64: "sizes_from 64 = [64, 128, 256, 512, 1024, 2048, 4096, 8192, 16384, 32768]"
  by (simp add: sizes_from.simps MAX_SIZE_def)


lemma fill_random_keeps_io:
  assumes "fill_random env s rows cols io = Inr (s', io')"
  shows "mallocs io' = mallocs io \<and> clocks io' = clocks io \<and> stdout io' = stdout io
       \<and> csv io' = csv io"
proof -
  define P where "P = (\<lambda>t :: real mem \<times> io. mallocs (snd t) = mallocs io
     \<and> clocks (snd t) = clocks io \<and> stdout (snd t) = stdout io \<and> csv (snd t) = csv io)"
  have cell: "P t'" if "P t" "fill_matrix_cell env i j t = Inr t'" for i j t t'
    using that by (cases t) (auto simp: P_def fill_matrix_cell_def random_unit_def rand_def
        split: prod.splits if_splits)
  have vcell: "P t'" if "P t" "fill_vector_cell env i t = Inr t'" for i t t'
    using that by (cases t) (auto simp: P_def fill_vector_cell_def random_unit_def rand_def
        split: prod.splits if_splits)
  have row: "P t'" if "P t" "for_loop 0 cols 1 (\<lambda>j. fill_matrix_cell env i j) t = Inr t'" for i t t'
    using that(2,1) by (rule for_loop_invariant) (rule cell)
  from assms obtain t where t: "for_loop 0 rows 1 (\<lambda>i. for_loop 0 cols 1 (\<lambda>j. fill_matrix_cell env i j)) (s, io) = Inr t"
      "for_loop 0 cols 1 (\<lambda>i. fill_vector_cell env i) t = Inr (s', io')"
    by (auto simp: fill_random_def bindE_eq_Inr)
  have "P (s, io)"
    by (simp add: P_def)
  with t(1) have "P t"
    by (rule for_loop_invariant) (rule row)
  with t(2) have "P (s', io')"
    by (rule for_loop_invariant) (rule vcell)
  then show ?thesis
    by (simp add: P_def)
qed

lemma fresh_mem_allocated: "allocated (fresh_mem env k N) N N"
  by (simp add: fresh_mem_def allocated_def list_all_iff)

lemma allocate_and_fill_succeeds:
  assumes "\<forall>j<N + 3. malloc_ok env (mallocs io + j)"
    and "\<forall>k. rand_out env k \<le> RAND_MAX env" "0 < RAND_MAX env"
  shows "\<exists>s io'. allocate_and_fill env N io = Inr (Some s, io') \<and> allocated s N N
           \<and> mallocs io' = mallocs io + N + 3 \<and> clocks io' = clocks io
           \<and> stdout io' = stdout io \<and> csv io' = csv io"
proof -
  from fill_random_total[OF assms(2,3) fresh_mem_allocated[of env "mallocs io" N],
      of "io\<lparr>mallocs := mallocs io + N + 3\<rparr>"]
  obtain s io' where run: "fill_random env (fresh_mem env (mallocs io) N) N N (io\<lparr>mallocs := mallocs io + N + 3\<rparr>) = Inr (s, io')"
      "allocated s N N"
    by blast
  from allocate_and_fill_cases[of env N io] assms(1)
  have "allocate_and_fill env N io
        = bindE (fill_random env (fresh_mem env (mallocs io) N) N N (io\<lparr>mallocs := mallocs io + N + 3\<rparr>))
            (\<lambda>(s, io4). Inr (Some s, io4))"
    by blast
  then have "allocate_and_fill env N io = Inr (Some s, io')"
    by (simp add: run(1))
  then show ?thesis
    using run(2) fill_random_keeps_io[OF run(1)] by simp
qed

lemma timed_returns:
  "timed env label N (Inr s') io
     = Inr (io\<lparr>clocks := clocks io + 2,
               csv := csv io @ [Timing label N (wtime env (clocks io + 1) - wtime env (clocks io))]\<rparr>)"
  by (simp add: timed_def get_time_def fprintf_def)












section \<open>Rounding\<close>

text \<open>
  The exponent of a real number between two powers of 2, and the roundings that the
  memory \<open>cancelling\<close> needs: \<open>2\<^sup>7\<^sup>0\<close> and \<open>- 2\<^sup>7\<^sup>0\<close> are doubles, and \<open>1 + 2\<^sup>7\<^sup>0\<close>
  rounds to \<open>2\<^sup>7\<^sup>0\<close>.
\<close>

lemma floor_log2: 
  assumes "2 ^ n \<le> x" "x < 2 ^ (n + 1)"
  shows "\<lfloor>log 2 x\<rfloor> = int n"
proof -
  have pos: "0 < x" using assms(1) by (smt (verit) zero_less_power)
  have "real n \<le> log 2 x"
    using assms(1) pos by (simp add: le_log_iff powr_realpow)
  moreover have "log 2 x < real n + 1"
    using assms(2) pos by (simp add: log_less_iff powr_realpow powr_add)
  ultimately show ?thesis
    by (simp add: floor_eq_iff)
qed

lemma round_double_0 [simp]: "round_double 0 = 0"
  by (simp add: round_double_def)

lemma round_double_1 [simp]: "round_double 1 = 1"
  by (simp add: round_double_def powr_minus Let_def)

lemma round_double_big: "round_double (2 ^ 70) = 2 ^ 70"
proof -
  have "\<lfloor>log 2 \<bar>2 ^ 70 :: real\<bar>\<rfloor> = int 70"
    by (rule floor_log2) simp_all
  then show ?thesis
    by (simp add: round_double_def Let_def)
qed

lemma round_double_neg_big: "round_double (- (2 ^ 70)) = - (2 ^ 70)"
proof -
  have "\<lfloor>log 2 (2 ^ 70 :: real)\<rfloor> = int 70"
    by (rule floor_log2) simp_all
  then show ?thesis
    by (simp add: round_double_def Let_def)
qed

lemma round_double_absorbs: "round_double (1 + 2 ^ 70) = 2 ^ 70"
proof -
  have "\<lfloor>log 2 (2 ^ 70 + 1 :: real)\<rfloor> = int 70"
    by (rule floor_log2) simp_all
  then show ?thesis
    by (simp add: round_double_def Let_def)
qed

lemma Double_0: "Double 0 = 0"
  by (simp add: zero_double_def)

lemma value_of_0: "value_of 0 = 0"
  by (simp add: zero_double_def)

lemmas double_arith = plus_double_def times_double_def Double_0 value_of_0
  round_double_big[simplified] round_double_neg_big[simplified] round_double_absorbs[simplified]

section \<open>The claims\<close>

subsection \<open>C1: the five kernels agree\<close>

text \<open>
  Claim C1: for every size and every row, each of the five kernels, called as the driver
  calls it on the same matrix and vector, returns the \<^verbatim>\<open>result[i]\<close> of
  \<^verbatim>\<open>sequential_mvm\<close> up to a relative error of \<open>10\<^sup>-\<^sup>9\<close>.

  The code does not do this. The driver hands the result array to the kernel as
  \<^verbatim>\<open>malloc\<close> returned it (lemma \<open>allocate_and_fill_result\<close>), the three untiled kernels
  begin every row with \<^verbatim>\<open>result[i] = 0.0\<close>, and the two tiled kernels add onto what the
  array holds (lemma \<open>openmp_tiled_result\<close>). The theorem takes the driver's first size,
  \<open>N = 64\<close>, in the environment \<open>always_max\<close>: \<^verbatim>\<open>rand\<close> returns \<^verbatim>\<open>RAND_MAX\<close>, so
  that the matrix and the vector are filled with ones, and the fresh result array happens
  to hold \<open>1\<close> in every cell. On these values doubles compute exactly.
  \<^verbatim>\<open>sequential_mvm\<close> returns 64 in every row, \<^verbatim>\<open>openmp_tiled_mvm\<close> returns 65, and
  the relative error \<open>1/64\<close> is not below \<open>10\<^sup>-\<^sup>9\<close>.
  Whatever the matrix and the vector, the two results differ by what the result array held
  before (lemma \<open>tiled_is_sequential_plus_initial\<close>).
\<close>

theorem tiled_differs_from_sequential:
  "(\<exists>io'. allocate_and_fill always_max 64 io0 = Inr (Some ones, io'))
   \<and> allocated ones 64 64
   \<and> map_sum id result (sequential_mvm ones 64 64) = Inr (replicate 64 64)
   \<and> map_sum id result (openmp_tiled_mvm ones 64 64 TILE_SIZE) = Inr (replicate 64 65)
   \<and> \<not> \<bar>65 - 64\<bar> < \<bar>64 :: real\<bar> / 10 ^ 9"
proof -
  have a: "allocated ones 64 64"
    by (simp add: allocated_def list_all_iff)
  have dot: "dot_from r0 (replicate 64 1) (replicate 64 1) [0..<64] = r0 + (64::real)" for r0
  proof -
    have "(\<Sum>j<64. replicate 64 (1::real) ! j * replicate 64 1 ! j) = (\<Sum>j<(64::nat). 1)"
      by (intro sum.cong) simp_all
    then show ?thesis
      by (simp add: dot_from_sum)
  qed
  have "map (\<lambda>k. dot_from 0 (matrix ones ! k) (vector ones) [0..<64]) [0..<64] = replicate 64 64"
    by (rule nth_equalityI) (simp_all add: dot)
  then have seq: "map_sum id result (sequential_mvm ones 64 64) = Inr (replicate 64 64)"
    unfolding sequential_mvm_result[OF a] by simp
  have "map (\<lambda>k. dot_from (result ones ! k) (matrix ones ! k) (vector ones) [0..<64]) [0..<64]
          = replicate 64 65"
    by (rule nth_equalityI) (simp_all add: dot)
  then have "map_sum id result (openmp_tiled_mvm ones 64 64 TILE_SIZE) = Inr (replicate 64 65)"
    unfolding TILE_SIZE_def openmp_tiled_result[of 16 64 ones, OF _ _ a, simplified] by simp
  then show ?thesis
    using a seq driver_passes_ones by simp
qed

subsection \<open>C2: the all-gather of the distributed kernel\<close>

text \<open>
  Claim C2: when the number of processes divides \<open>N\<close> and the processes hold the same
  \<open>N\<close> x \<open>N\<close> matrix and the same vector, then after the local computation of
  \<^verbatim>\<open>mpi_mvm\<close> and the all-gather with chunk size \<open>N / size\<close> every process holds the
  full result vector: each process is in the state that \<^verbatim>\<open>sequential_mvm\<close> would have
  left it in, and the result is the same on all processes.
\<close>

theorem mpi_mvm_gathers_sequential_product:
  assumes "0 < length ss" "length ss dvd N"
    and "\<forall>s\<in>set ss. allocated s N N \<and> matrix s = m \<and> vector s = v"
  shows "\<exists>ss'. mpi_mvm_world ss N N = Inr ss' \<and> length ss' = length ss
           \<and> (\<forall>p<length ss. sequential_mvm (ss ! p) N N = Inr (ss' ! p))
           \<and> (\<forall>p<length ss. \<forall>q<length ss. result (ss' ! p) = result (ss' ! q))"
proof -
  define ss' where "ss' = map (\<lambda>s. s\<lparr>result := map (\<lambda>k. dot_from 0 (m ! k) v [0..<N]) [0..<N]\<rparr>) ss"
  have run: "mpi_mvm_world ss N N = Inr ss'"
    unfolding ss'_def by (rule mpi_mvm_world_result[OF assms])
  have "sequential_mvm (ss ! p) N N = Inr (ss' ! p)" if "p < length ss" for p
  proof -
    have "ss ! p \<in> set ss"
      using that by simp
    then have "allocated (ss ! p) N N" "matrix (ss ! p) = m" "vector (ss ! p) = v"
      using assms(3) by blast+
    then show ?thesis
      using that sequential_mvm_result[of "ss ! p" N N] by (simp add: ss'_def)
  qed
  moreover have "result (ss' ! p) = result (ss' ! q)" if "p < length ss" "q < length ss" for p q
    using that by (simp add: ss'_def)
  moreover have "length ss' = length ss"
    by (simp add: ss'_def)
  ultimately show ?thesis
    using run by blast
qed

theorem mpi_mvm_gathers_sequential_product_witness:
  "mpi_mvm_world [small, small\<lparr>result := [0, 0]\<rparr>] 2 2
     = Inr [small\<lparr>result := [17, 39]\<rparr>, small\<lparr>result := [17, 39]\<rparr>]
   \<and> (\<exists>ss'. mpi_mvm_world [small, small\<lparr>result := [0, 0]\<rparr>] 2 2 = Inr ss'
          \<and> sequential_mvm small 2 2 = Inr (ss' ! 0)
          \<and> result (ss' ! 0) = result (ss' ! 1))"
proof -
  have h: "0 < length [small, small\<lparr>result := [0, 0]\<rparr>]"
      "length [small, small\<lparr>result := [0, 0]\<rparr>] dvd 2"
      "\<forall>s\<in>set [small, small\<lparr>result := [0, 0]\<rparr>].
         allocated s 2 2 \<and> matrix s = [[1, 2], [3, 4]] \<and> vector s = [5, 6]"
    by (simp_all add: allocated_def numeral_2_eq_2)
  have run: "mpi_mvm_world [small, small\<lparr>result := [0, 0]\<rparr>] 2 2
     = Inr [small\<lparr>result := [17, 39]\<rparr>, small\<lparr>result := [17, 39]\<rparr>]"
    by code_simp
  from mpi_mvm_gathers_sequential_product[OF h]
  obtain ss' where ss': "mpi_mvm_world [small, small\<lparr>result := [0, 0]\<rparr>] 2 2 = Inr ss'"
      "\<forall>p<2. sequential_mvm ([small, small\<lparr>result := [0, 0]\<rparr>] ! p) 2 2 = Inr (ss' ! p)"
      "\<forall>p<2. \<forall>q<2. result (ss' ! p) = result (ss' ! q)"
    by auto
  from ss'(2)[rule_format, of 0] have "sequential_mvm small 2 2 = Inr (ss' ! 0)"
    by simp
  moreover from ss'(3)[rule_format, of 0 1] have "result (ss' ! 0) = result (ss' ! 1)"
    by simp
  ultimately show ?thesis
    using run ss'(1) by blast
qed

subsection \<open>C3: the row partition\<close>

text \<open>
  Claim C3. For every row count \<open>N\<close> and every number of processes \<open>nprocs \<ge> 1\<close>, the row
  ranges \<open>[part_start N nprocs r, part_end N nprocs r)\<close> of the ranks \<open>r < nprocs\<close> are pairwise
  disjoint and their union is exactly \<open>[0, N)\<close>, whether or not \<open>nprocs\<close> divides \<open>N\<close>.
\<close>

theorem partition_disjoint_cover:
  assumes "0 < nprocs"
  shows "(\<Union>r<nprocs. {part_start N nprocs r ..< part_end N nprocs r}) = {0..<N}
       \<and> (\<forall>r<nprocs. \<forall>r'<nprocs. r \<noteq> r' \<longrightarrow>
            {part_start N nprocs r ..< part_end N nprocs r}
              \<inter> {part_start N nprocs r' ..< part_end N nprocs r'} = {})"
proof (intro conjI allI impI)
  show "(\<Union>r<nprocs. {part_start N nprocs r ..< part_end N nprocs r}) = {0..<N}"
  proof (intro set_eqI iffI)
    fix i assume "i \<in> (\<Union>r<nprocs. {part_start N nprocs r ..< part_end N nprocs r})"
    then obtain r where r: "r < nprocs" "i < part_end N nprocs r"
      by auto
    have "part_end N nprocs r \<le> N"
    proof (cases "r + 1 = nprocs")
      case True
      then show ?thesis by (simp add: part_end_def)
    next
      case False
      have "(N div nprocs) * (r + 1) \<le> (N div nprocs) * nprocs"
        using r(1) by (intro mult_le_mono2) simp
      also have "\<dots> \<le> N"
        by simp
      finally show ?thesis
        using False by (simp add: part_end_def)
    qed
    then show "i \<in> {0..<N}"
      using r(2) by simp
  next
    fix i assume "i \<in> {0..<N}"
    then have "i < N" by simp
    from part_cover[OF this assms] show "i \<in> (\<Union>r<nprocs. {part_start N nprocs r ..< part_end N nprocs r})"
      by auto
  qed
next
  fix r r' assume rr: "r < nprocs" "r' < nprocs" "r \<noteq> r'"
  show "{part_start N nprocs r ..< part_end N nprocs r}
          \<inter> {part_start N nprocs r' ..< part_end N nprocs r'} = {}"
  proof (cases "r < r'")
    case True
    from part_end_le_later_start[OF True rr(2), of N] show ?thesis
      by auto
  next
    case False
    then have "r' < r" using rr(3) by simp
    from part_end_le_later_start[OF this rr(1), of N] show ?thesis
      by auto
  qed
qed

theorem partition_disjoint_cover_witness:
  "(\<Union>r<3. {part_start 64 3 r ..< part_end 64 3 r}) = {0..<64}
   \<and> {part_start 64 3 0 ..< part_end 64 3 0} \<inter> {part_start 64 3 2 ..< part_end 64 3 2} = {}
   \<and> part_start 64 3 2 = 42 \<and> part_end 64 3 2 = 64"
proof -
  have three: "0 < (3::nat)" by simp
  note cover = partition_disjoint_cover[OF three, of 64]
  have "{part_start 64 3 0 ..< part_end 64 3 0} \<inter> {part_start 64 3 2 ..< part_end 64 3 2} = {}"
    using conjunct2[OF cover, rule_format, of 0 2] by simp
  moreover have "part_start 64 3 2 = 42 \<and> part_end 64 3 2 = 64"
    by (simp add: part_start_def part_end_def)
  ultimately show ?thesis
    using cover by blast
qed

subsection \<open>C4: the tiled kernels and the bounds of the arrays\<close>

text \<open>
  Claim C4 says that for every size \<open>N\<close> the tiled kernels, with tile edge 16, read and
  write only indices in \<open>[0, N)\<close>, in particular for \<open>N = 80\<close>. As stated it fails: no loop
  of the nest clips a tile, so for \<open>N = 1\<close> \<^verbatim>\<open>openmp_tiled_mvm\<close> runs \<open>jj\<close> and \<open>ii\<close> up
  to 15 and leaves the arrays; and for \<open>N = 80\<close> on two processes the row tiles of rank 1
  begin at 40, 56 and 72, and the last one runs \<open>ii\<close> up to 87.
\<close>

theorem tiled_overruns:
  "allocated cell 1 1 \<and> openmp_tiled_mvm cell 1 1 16 = Inl OutOfBounds
   \<and> allocated zeros80 80 80 \<and> mpi_tiled_mvm_rows zeros80 80 80 1 2 16 = Inl OutOfBounds"
proof -
  have a1: "allocated cell 1 1" and a80: "allocated zeros80 80 80"
    by (simp_all add: allocated_def list_all_iff)
  have pos: "0 < (16::nat)"
    by simp
  have "\<not> tiles_fit 0 1 1 1 16"
    by (simp add: tiles_fit_def tile_count_def)
  from tile_kernel_oob[OF pos a1 this]
  have "openmp_tiled_mvm cell 1 1 16 = Inl OutOfBounds"
    by (simp add: openmp_tiled_mvm_def)
  moreover have "\<not> tiles_fit 40 80 80 80 16"
    by (simp add: tiles_fit_def tile_count_def)
  from tile_kernel_oob[OF pos a80 this]
  have "tile_nest 40 80 80 16 (\<lambda>i j ii jj. accumulate ii jj) zeros80 = Inl OutOfBounds" .
  then have "mpi_tiled_mvm_rows zeros80 80 80 1 2 16 = Inl OutOfBounds"
    by (simp add: mpi_tiled_mvm_rows_def part_start_def part_end_def)
  ultimately show ?thesis
    using a1 a80 by simp
qed

text \<open>
  Claim C4, amended: on \<open>N\<close> x \<open>N\<close> arrays and with a tile edge \<open>T > 0\<close>,
  \<^verbatim>\<open>openmp_tiled_mvm\<close> reads and writes only indices in \<open>[0, N)\<close> exactly when \<open>T\<close>
  divides \<open>N\<close> (so it does for \<open>N = 80 = 5 * 16\<close> and for every size of the driver);
  \<^verbatim>\<open>mpi_tiled_mvm\<close> does when \<open>T\<close> divides \<open>N\<close> and the length of the process's row
  range, and every rank's receive buffer has \<open>N\<close> elements.
\<close>

theorem tiled_in_bounds:
  assumes "0 < T" "allocated s N N"
  shows "((\<exists>s'. openmp_tiled_mvm s N N T = Inr s') \<longleftrightarrow> T dvd N)
       \<and> (rank < nprocs \<and> T dvd N
            \<and> T dvd part_end N nprocs rank - part_start N nprocs rank
            \<and> length peers = nprocs \<and> list_all (\<lambda>b. length b = N) peers
          \<longrightarrow> (\<exists>s'. mpi_tiled_mvm peers s N N rank nprocs T = Inr s'))"
proof (intro conjI impI)
  show "(\<exists>s'. openmp_tiled_mvm s N N T = Inr s') \<longleftrightarrow> T dvd N"
  proof (cases "T dvd N")
    case True
    then show ?thesis
      using openmp_tiled_result[OF assms(1) True assms(2)] by simp
  next
    case False
    then have "\<not> tiles_fit 0 N N N T"
      using assms(1) by (simp add: tiles_fit_square)
    from tile_kernel_oob[OF assms this] show ?thesis
      using False by (simp add: openmp_tiled_mvm_def)
  qed
next
  assume h: "rank < nprocs \<and> T dvd N \<and> T dvd part_end N nprocs rank - part_start N nprocs rank
            \<and> length peers = nprocs \<and> list_all (\<lambda>b. length b = N) peers"
  define a where "a = part_start N nprocs rank"
  define b where "b = part_end N nprocs rank"
  have ab: "a \<le> b" "b \<le> N"
    using part_start_le_end[of N nprocs rank] part_end_le[of rank nprocs N] h
    by (simp_all add: a_def b_def)
  have "tile_count a b T * T = b - a"
    using tile_count_dvd[OF assms(1), of b a] h by (simp add: a_def b_def)
  moreover have "tile_count 0 N T * T = N"
    using tile_count_dvd[OF assms(1), of N 0] h by simp
  ultimately have fit: "tiles_fit a b N N T"
    using ab by (simp add: tiles_fit_def)
  from tile_kernel_result[OF assms fit]
  obtain s1 where s1: "tile_nest a b N T (\<lambda>i j ii jj. accumulate ii jj) s = Inr s1"
      "length (result s1) = N"
    by simp
  have rows: "mpi_tiled_mvm_rows s N N rank nprocs T = Inr s1"
    using h s1(1) by (simp add: mpi_tiled_mvm_rows_def a_def b_def)
  have "length (peers[rank := result s1]) = nprocs"
    using h by simp
  moreover have "list_all (\<lambda>b. length b = N) (peers[rank := result s1])"
    using h s1(2) by (auto simp: list_all_length nth_list_update)
  moreover have "rank < nprocs"
    using h by simp
  ultimately
  obtain r where "MPI_Allgather_IN_PLACE (peers[rank := result s1]) (N div nprocs) rank = Inr r"
    using allgather_fits by blast
  then show "\<exists>s'. mpi_tiled_mvm peers s N N rank nprocs T = Inr s'"
    using rows by (simp add: mpi_tiled_mvm_def)
qed

theorem tiled_in_bounds_witness:
  "allocated zeros80 80 80 \<and> (\<exists>s'. openmp_tiled_mvm zeros80 80 80 16 = Inr s')
   \<and> (\<exists>s'. mpi_tiled_mvm (replicate 5 (replicate 80 0)) zeros80 80 80 4 5 16 = Inr s')"
proof -
  have h: "0 < (16::nat)" "allocated zeros80 80 80"
    by (simp_all add: allocated_def list_all_iff)
  have d: "(16::nat) dvd 80"
    by simp
  have p: "4 < (5::nat) \<and> (16::nat) dvd 80 \<and> 16 dvd part_end 80 5 4 - part_start 80 5 4
         \<and> length (replicate 5 (replicate 80 (0::real))) = 5
         \<and> list_all (\<lambda>b. length b = 80) (replicate 5 (replicate 80 (0::real)))"
    by (simp add: part_start_def part_end_def list_all_iff)
  from tiled_in_bounds[OF h, of 4 5 "replicate 5 (replicate 80 0)"] d p h(2) show ?thesis
    by blast
qed

subsection \<open>C5: the tiled kernel accumulates\<close>

text \<open>
  Claim C5 says that \<^verbatim>\<open>openmp_tiled_mvm\<close> adds onto the caller's result instead of
  overwriting it: when the tile edge divides \<open>N\<close>, every \<^verbatim>\<open>result[i]\<close> ends as its
  initial value plus the sum over \<open>j\<close> of \<^verbatim>\<open>matrix[i][j] * vector[j]\<close>; the kernel never
  zeroes the result, and the driver passes it a result array fresh from \<^verbatim>\<open>malloc\<close>.

  As stated it fails. The kernel adds the products to \<^verbatim>\<open>result[i]\<close> one after the other
  and rounds every sum to a double, and the outcome of that is not the initial value plus
  the sum of the products. In the 2 x 2 memory \<open>cancelling\<close> the first row of the matrix is
  \<open>2\<^sup>7\<^sup>0\<close> and \<open>- 2\<^sup>7\<^sup>0\<close>, the vector holds ones and \<^verbatim>\<open>result[0]\<close> is 1 on entry. The
  kernel computes \<open>(1 + 2\<^sup>7\<^sup>0) - 2\<^sup>7\<^sup>0\<close>, loses the 1 when it rounds the first sum, and
  leaves 0. The initial value plus the sum of the products is 1, whether the sum is taken
  in doubles, from 0 and in the order of the columns, or exactly.
\<close>

theorem tiled_sum_is_rounded:
  "allocated cancelling 2 2
   \<and> map_sum id result (openmp_tiled_mvm cancelling 2 2 2) = Inr [Double 0, Double 0]
   \<and> map (\<lambda>i. result cancelling ! i
                + dot_from 0 (matrix cancelling ! i) (vector cancelling) [0..<2]) [0..<2]
       = [Double 1, Double 0]
   \<and> map (\<lambda>i. value_of (result cancelling ! i)
                + (\<Sum>j<2. value_of (matrix cancelling ! i ! j) * value_of (vector cancelling ! j)))
         [0..<2]
       = [1, 0]"
proof -
  have a: "allocated cancelling 2 2"
    by (simp add: allocated_def)
  have two: "[0..<2] = [0, 1]"
    by (simp add: upt_rec)
  have run: "map_sum id result (openmp_tiled_mvm cancelling 2 2 2) = Inr [Double 0, Double 0]"
  proof -
    have "openmp_tiled_mvm cancelling 2 2 2
            = Inr (cancelling\<lparr>result := map (\<lambda>k. dot_from (result cancelling ! k)
                     (matrix cancelling ! k) (vector cancelling) [0..<2]) [0..<2]\<rparr>)"
      by (rule openmp_tiled_result[OF _ _ a]) simp_all
    then show ?thesis
      by (simp add: two double_arith)
  qed
  have claimed: "map (\<lambda>i. result cancelling ! i
                + dot_from 0 (matrix cancelling ! i) (vector cancelling) [0..<2]) [0..<2]
       = [Double 1, Double 0]"
    by (simp add: two double_arith)
  have exact: "map (\<lambda>i. value_of (result cancelling ! i)
                + (\<Sum>j<2. value_of (matrix cancelling ! i ! j) * value_of (vector cancelling ! j)))
         [0..<2]
       = [1, 0]"
    by (simp add: two lessThan_Suc numeral_2_eq_2)
  show ?thesis
    using a run claimed exact by blast
qed

text \<open>
  Claim C5, amended: run by one thread, \<^verbatim>\<open>openmp_tiled_mvm\<close> adds onto the caller's
  result. When the tile edge divides \<open>N\<close>, every \<^verbatim>\<open>result[i]\<close> ends as
  the value reached from its initial value by adding \<^verbatim>\<open>matrix[i][j] * vector[j]\<close> for
  \<open>j = 0, ..., N - 1\<close> in this order, in the arithmetic of the elements: for doubles every
  product and every sum is rounded, and in exact arithmetic the value is the initial value
  plus the sum (lemma \<open>dot_from_sum\<close>). The kernel never zeroes the result, and for the
  variant 4 \<^verbatim>\<open>run_programs\<close> runs the kernel, with the tile edge 16, on the arrays it has
  allocated and filled, where the result array is the block that \<^verbatim>\<open>malloc\<close> returned,
  never written before.

  The element type of the theorem is any type with an addition and a multiplication. With
  several threads the tiles of one row band update \<^verbatim>\<open>result[ii]\<close> without
  synchronisation; the statement is not about those runs.
\<close>

theorem openmp_tiled_accumulates:
  fixes s :: "'a::{plus,times} mem"
  assumes "tile_size dvd N" "allocated s N N"
  shows "(\<exists>s'. openmp_tiled_mvm s N N tile_size = Inr s' \<and> length (result s') = N
            \<and> (\<forall>i<N. result s' ! i
                       = foldl (\<lambda>acc j. acc + matrix s ! i ! j * vector s ! j) (result s ! i) [0..<N]))
       \<and> (\<forall>env io M rank nprocs s0 io'.
             allocate_and_fill env M io = Inr (Some s0, io') \<longrightarrow>
               result s0 = map (malloc_junk env (mallocs io + M + 2)) [0..<M]
               \<and> run_programs env 4 M rank nprocs io
                   = timed env ''OpenMP Tiled'' M (openmp_tiled_mvm s0 M M TILE_SIZE) io')"
proof -
  have driver: "run_programs env 4 M rank nprocs io
          = timed env ''OpenMP Tiled'' M (openmp_tiled_mvm s0 M M TILE_SIZE) io'"
    if "allocate_and_fill env M io = Inr (Some s0, io')" for env io M rank nprocs s0 io'
    using that by (simp add: run_programs_def benchmark_def)
  have kernel: "\<exists>s'. openmp_tiled_mvm s N N tile_size = Inr s' \<and> length (result s') = N
            \<and> (\<forall>i<N. result s' ! i
                       = foldl (\<lambda>acc j. acc + matrix s ! i ! j * vector s ! j) (result s ! i) [0..<N])"
  proof (cases "tile_size = 0")
    case True
    then have "N = 0"
      using assms(1) by simp
    moreover have "openmp_tiled_mvm s 0 0 0 = Inr s"
      unfolding openmp_tiled_mvm_def tile_nest_def by (subst for_loop.simps) simp
    ultimately show ?thesis
      using True assms(2) by (simp add: allocated_def)
  next
    case False
    then have "0 < tile_size"
      by simp
    from openmp_tiled_result[OF this assms] show ?thesis
      by (simp add: dot_from_def)
  qed
  show ?thesis
    using kernel driver allocate_and_fill_result by simp
qed

theorem openmp_tiled_accumulates_witness:
  "(\<exists>s'. openmp_tiled_mvm cancelling 2 2 2 = Inr s'
        \<and> result s' ! 0 = Double 0 \<and> result s' ! 1 = Double 0)
   \<and> (\<exists>io' io''. allocate_and_fill always_max 64 io0 = Inr (Some ones, io')
        \<and> result ones = map (malloc_junk always_max (mallocs io0 + 64 + 2)) [0..<64]
        \<and> run_programs always_max 4 64 0 1 io0 = Inr io''
        \<and> csv io'' = [Header, Timing ''OpenMP Tiled'' 64 1])"
proof -
  have h: "(2::nat) dvd 2" "allocated cancelling 2 2"
    by (simp_all add: allocated_def)
  note claim = openmp_tiled_accumulates[OF h]
  have two: "[0..<2] = [0, 1]"
    by (simp add: upt_rec)
  from claim obtain s' where s': "openmp_tiled_mvm cancelling 2 2 2 = Inr s'"
      "\<forall>i<2. result s' ! i
          = foldl (\<lambda>acc j. acc + matrix cancelling ! i ! j * vector cancelling ! j)
              (result cancelling ! i) [0..<2]"
    by blast
  from s'(2)[rule_format, of 0] have r0: "result s' ! 0 = Double 0"
    by (simp add: two double_arith)
  from s'(2)[rule_format, of 1] have r1: "result s' ! 1 = Double 0"
    by (simp add: two double_arith)
  from driver_passes_ones obtain io' where
    f: "allocate_and_fill always_max 64 io0 = Inr (Some ones, io')"
    by blast
  have "\<forall>j<64 + 3. malloc_ok always_max (mallocs io0 + j)"
      "\<forall>k. rand_out always_max k \<le> RAND_MAX always_max" "0 < RAND_MAX always_max"
    by simp_all
  from allocate_and_fill_succeeds[OF this] f
  have io': "clocks io' = 0" "csv io' = [Header]"
    by auto
  from claim f have drv: "result ones = map (malloc_junk always_max (mallocs io0 + 64 + 2)) [0..<64]"
      "run_programs always_max 4 64 0 1 io0
         = timed always_max ''OpenMP Tiled'' 64 (openmp_tiled_mvm ones 64 64 TILE_SIZE) io'"
    by blast+
  have a: "allocated ones 64 64"
    by (simp add: allocated_def list_all_iff)
  have "\<exists>t. openmp_tiled_mvm ones 64 64 TILE_SIZE = Inr t"
    unfolding TILE_SIZE_def using openmp_tiled_result[of 16 64 ones, OF _ _ a] by simp
  then obtain t where "openmp_tiled_mvm ones 64 64 TILE_SIZE = Inr t"
    by blast
  then have "\<exists>io''. run_programs always_max 4 64 0 1 io0 = Inr io''
        \<and> csv io'' = [Header, Timing ''OpenMP Tiled'' 64 1]"
    using drv(2) io' by (simp add: timed_returns)
  then show ?thesis
    using s'(1) r0 r1 f drv(1) by blast
qed

subsection \<open>C6: the range of the random fill\<close>

text \<open>
  Claim C6 says that every value \<^verbatim>\<open>fill_random\<close> writes is at least 0 and strictly
  below 1. As stated it fails: the value is \<^verbatim>\<open>(double)rand() / RAND_MAX\<close>, and
  \<^verbatim>\<open>rand\<close> may return \<^verbatim>\<open>RAND_MAX\<close> itself. With \<^verbatim>\<open>RAND_MAX\<close> = 32767 and a
  \<^verbatim>\<open>rand\<close> that returns 32767, the matrix and the vector are filled with the value 1.
\<close>

theorem fill_random_writes_one:
  "fill_random always_max cell 1 1 io0
     = Inr (\<lparr>matrix = [[1]], vector = [1], result = [0]\<rparr>, io0\<lparr>rands := 2\<rparr>)"
  by (simp add: fill_random_def for_loop_unit_Suc fill_matrix_cell_def fill_vector_cell_def
      random_unit_def rand_def)

text \<open>
  Claim C6, amended: every value that \<^verbatim>\<open>fill_random\<close> writes into the matrix and
  into the vector lies in the closed interval \<open>[0, 1]\<close>; and on arrays of the size it is
  called with it writes every cell without a fault. The C library promises that
  \<^verbatim>\<open>rand\<close> returns values from 0 to \<^verbatim>\<open>RAND_MAX\<close> and that \<^verbatim>\<open>RAND_MAX\<close> is positive.
\<close>

theorem fill_random_unit_interval:
  assumes "\<forall>k. rand_out env k \<le> RAND_MAX env" "0 < RAND_MAX env" "allocated s rows cols"
  shows "\<exists>s' io'. fill_random env s rows cols io = Inr (s', io')
           \<and> (\<forall>i<rows. \<forall>j<cols. 0 \<le> matrix s' ! i ! j \<and> matrix s' ! i ! j \<le> 1)
           \<and> (\<forall>j<cols. 0 \<le> vector s' ! j \<and> vector s' ! j \<le> 1)"
  using fill_random_total[OF assms, of io] unfolding unit_interval_def by blast

theorem fill_random_unit_interval_witness:
  "(\<forall>k. rand_out always_max k \<le> RAND_MAX always_max) \<and> 0 < RAND_MAX always_max
   \<and> allocated cell 1 1
   \<and> (\<exists>s' io'. fill_random always_max cell 1 1 io0 = Inr (s', io')
          \<and> 0 \<le> matrix s' ! 0 ! 0 \<and> matrix s' ! 0 ! 0 \<le> 1
          \<and> 0 \<le> vector s' ! 0 \<and> vector s' ! 0 \<le> 1)"
proof -
  have h: "\<forall>k. rand_out always_max k \<le> RAND_MAX always_max" "0 < RAND_MAX always_max"
      "allocated cell 1 1"
    by (simp_all add: allocated_def)
  from fill_random_unit_interval[OF h, of io0] show ?thesis
    using h by auto
qed

subsection \<open>C7: the tiles cover the index pairs once\<close>

text \<open>
  Claim C7: when the tile edge divides \<open>N\<close>, the loop nest of \<^verbatim>\<open>openmp_tiled_mvm\<close>
  runs its body for every pair \<open>(ii, jj)\<close> with \<open>ii, jj < N\<close> in exactly one iteration:
  among the tuples (tile row, tile column, \<open>ii\<close>, \<open>jj\<close>) it visits, exactly one carries
  the pair, and no tuple carries a pair outside. The tile edge of the driver is 16.
\<close>

theorem tiling_visits_each_pair_once:
  assumes "0 < T" "T dvd N"
  shows "\<exists>tr. tiled_visits N N T = Inr tr
           \<and> (\<forall>ii<N. \<forall>jj<N.
                 length (filter (\<lambda>(i, j, ii', jj'). ii' = ii \<and> jj' = jj) tr) = 1)
           \<and> (\<forall>(i, j, ii, jj)\<in>set tr. ii < N \<and> jj < N)"
proof -
  define tr where "tr = nest_order (tile_starts 0 N T) (tile_starts 0 N T) T"
  define ps where "ps = map (\<lambda>t. snd (snd t)) tr"
  have tc: "tile_count 0 N T * T = N"
    using tile_count_dvd[OF assms(1), of N 0] assms(2) by simp
  have row: "visited_in_row k ps = (if k < N then [0..<N] else [])" for k
    unfolding ps_def tr_def visited_in_row_nest by (simp add: tc)
  have once: "length (filter (\<lambda>(i, j, ii', jj'). ii' = ii \<and> jj' = jj) tr) = 1"
    if "ii < N" "jj < N" for ii jj
  proof -
    have "filter (\<lambda>(i, j, ii', jj'). ii' = ii \<and> jj' = jj) tr
            = filter ((\<lambda>p. p = (ii, jj)) \<circ> (\<lambda>t. snd (snd t))) tr"
      by (rule filter_cong[OF refl]) auto
    then have "length (filter (\<lambda>(i, j, ii', jj'). ii' = ii \<and> jj' = jj) tr)
                 = length (filter (\<lambda>p. p = (ii, jj)) ps)"
      by (simp add: ps_def filter_map)
    also have "\<dots> = length (filter (\<lambda>j. j = jj) (visited_in_row ii ps))"
      by (rule count_in_row)
    also have "\<dots> = 1"
      using that by (simp add: row count_upt)
    finally show ?thesis .
  qed
  have inside: "ii < N \<and> jj < N" if "(i, j, ii, jj) \<in> set tr" for i j ii jj
  proof -
    from that have "(ii, jj) \<in> set ps"
      by (force simp: ps_def)
    then show ?thesis
      unfolding ps_def tr_def nest_visits_iff by (simp add: tc)
  qed
  have "tiled_visits N N T = Inr tr"
    unfolding tr_def by (rule tiled_visits_order[OF assms(1)])
  then show ?thesis
    using once inside by auto
qed

theorem tiling_visits_each_pair_once_witness:
  "\<exists>tr. tiled_visits 64 64 16 = Inr tr
     \<and> length (filter (\<lambda>(i, j, ii', jj'). ii' = 17 \<and> jj' = 40) tr) = 1
     \<and> tiled_visits 2 2 1 = Inr [(0, 0, 0, 0), (0, 1, 0, 1), (1, 0, 1, 0), (1, 1, 1, 1)]"
proof -
  have h: "0 < (16::nat)" "(16::nat) dvd 64"
    by simp_all
  have small_run: "tiled_visits 2 2 1 = Inr [(0, 0, 0, 0), (0, 1, 0, 1), (1, 0, 1, 0), (1, 1, 1, 1)]"
    by code_simp
  from tiling_visits_each_pair_once[OF h] obtain tr where tr: "tiled_visits 64 64 16 = Inr tr"
      "\<forall>ii<64. \<forall>jj<64. length (filter (\<lambda>(i, j, ii', jj'). ii' = ii \<and> jj' = jj) tr) = 1"
    by blast
  from tr(2) have "length (filter (\<lambda>(i, j, ii', jj'). ii' = 17 \<and> jj' = 40) tr) = 1"
    by simp
  with tr(1) small_run show ?thesis
    by blast
qed

subsection \<open>C8: the kernels write only the result\<close>

text \<open>
  Claim C8: each of the five kernels leaves the matrix and the vector as they were on
  entry, whatever its input; only the result array is written. The three arrays are
  separate allocations, as in \<^verbatim>\<open>run_programs\<close>.
\<close>

theorem kernels_keep_inputs:
  "(sequential_mvm s rows cols = Inr s' \<longrightarrow> matrix s' = matrix s \<and> vector s' = vector s)
   \<and> (openmp_mvm s rows cols = Inr s' \<longrightarrow> matrix s' = matrix s \<and> vector s' = vector s)
   \<and> (mpi_mvm peers s rows cols rank nprocs = Inr s'
        \<longrightarrow> matrix s' = matrix s \<and> vector s' = vector s)
   \<and> (openmp_tiled_mvm s rows cols tile_size = Inr s'
        \<longrightarrow> matrix s' = matrix s \<and> vector s' = vector s)
   \<and> (mpi_tiled_mvm peers s rows cols rank nprocs tile_size = Inr s'
        \<longrightarrow> matrix s' = matrix s \<and> vector s' = vector s)"
proof (intro conjI impI)
  assume "sequential_mvm s rows cols = Inr s'"
  then have "same_inputs s s'"
    unfolding sequential_mvm_def by (rule row_loop_frame)
  then show "matrix s' = matrix s" "vector s' = vector s"
    by (simp_all add: same_inputs_def)
next
  assume "openmp_mvm s rows cols = Inr s'"
  then have "same_inputs s s'"
    unfolding openmp_mvm_def by (rule row_loop_frame)
  then show "matrix s' = matrix s" "vector s' = vector s"
    by (simp_all add: same_inputs_def)
next
  assume "mpi_mvm peers s rows cols rank nprocs = Inr s'"
  then obtain s1 r where s1: "mpi_mvm_rows s rows cols rank nprocs = Inr s1" "s' = s1\<lparr>result := r\<rparr>"
    by (auto simp: mpi_mvm_def bindE_eq_Inr)
  from s1(1) have "same_inputs s s1"
    by (auto simp: mpi_mvm_rows_def split: if_splits intro: row_loop_frame)
  then show "matrix s' = matrix s" "vector s' = vector s"
    using s1(2) by (simp_all add: same_inputs_def)
next
  assume "openmp_tiled_mvm s rows cols tile_size = Inr s'"
  then have "same_inputs s s'"
    unfolding openmp_tiled_mvm_def by (rule tile_nest_frame)
  then show "matrix s' = matrix s" "vector s' = vector s"
    by (simp_all add: same_inputs_def)
next
  assume "mpi_tiled_mvm peers s rows cols rank nprocs tile_size = Inr s'"
  then obtain s1 r where s1: "mpi_tiled_mvm_rows s rows cols rank nprocs tile_size = Inr s1"
      "s' = s1\<lparr>result := r\<rparr>"
    by (auto simp: mpi_tiled_mvm_def bindE_eq_Inr)
  from s1(1) have "same_inputs s s1"
    by (auto simp: mpi_tiled_mvm_rows_def split: if_splits intro: tile_nest_frame)
  then show "matrix s' = matrix s" "vector s' = vector s"
    using s1(2) by (simp_all add: same_inputs_def)
qed

theorem kernels_keep_inputs_witness:
  "sequential_mvm small 2 2 = Inr (small\<lparr>result := [17, 39]\<rparr>)
   \<and> openmp_mvm small 2 2 = Inr (small\<lparr>result := [17, 39]\<rparr>)
   \<and> mpi_mvm [[0, 0]] small 2 2 0 1 = Inr (small\<lparr>result := [17, 39]\<rparr>)
   \<and> openmp_tiled_mvm small 2 2 2 = Inr (small\<lparr>result := [24, 47]\<rparr>)
   \<and> mpi_tiled_mvm [[0, 0]] small 2 2 0 1 2 = Inr (small\<lparr>result := [24, 47]\<rparr>)
   \<and> matrix (small\<lparr>result := [17, 39]\<rparr>) = matrix small
   \<and> vector (small\<lparr>result := [17, 39]\<rparr>) = vector small
   \<and> matrix (small\<lparr>result := [24, 47]\<rparr>) = matrix small
   \<and> vector (small\<lparr>result := [24, 47]\<rparr>) = vector small"
proof -
  have runs: "sequential_mvm small 2 2 = Inr (small\<lparr>result := [17, 39]\<rparr>)"
      "openmp_mvm small 2 2 = Inr (small\<lparr>result := [17, 39]\<rparr>)"
      "mpi_mvm [[0, 0]] small 2 2 0 1 = Inr (small\<lparr>result := [17, 39]\<rparr>)"
      "openmp_tiled_mvm small 2 2 2 = Inr (small\<lparr>result := [24, 47]\<rparr>)"
      "mpi_tiled_mvm [[0, 0]] small 2 2 0 1 2 = Inr (small\<lparr>result := [24, 47]\<rparr>)"
    by code_simp+
  from kernels_keep_inputs[of small 2 2 "small\<lparr>result := [17, 39]\<rparr>" "[[0, 0]]" 0 1 2] runs(1)
  have untiled: "matrix (small\<lparr>result := [17, 39]\<rparr>) = matrix small
        \<and> vector (small\<lparr>result := [17, 39]\<rparr>) = vector small"
    by blast
  from kernels_keep_inputs[of small 2 2 "small\<lparr>result := [24, 47]\<rparr>" "[[0, 0]]" 0 1 2] runs(4)
  have tiled: "matrix (small\<lparr>result := [24, 47]\<rparr>) = matrix small
        \<and> vector (small\<lparr>result := [24, 47]\<rparr>) = vector small"
    by blast
  show ?thesis
    using runs untiled tiled by blast
qed

subsection \<open>C9: the selection\<close>

text \<open>
  Claim C9: the selection accepts only an integer from 1 to 5; any other input leads to
  a new prompt and never to a failure of the program, and the accepted value is the
  variant that runs.

  The code misses the end of the input. On the input \<^verbatim>\<open>abc\<close> with nothing behind it,
  \<^verbatim>\<open>scanf_s\<close> matches nothing, the program prints its prompt and enters
  \<^verbatim>\<open>while (getchar() != '\n');\<close>, where \<^verbatim>\<open>getchar\<close> returns \<^verbatim>\<open>EOF\<close> for ever:
  neither the selection nor \<^verbatim>\<open>main\<close> returns. The rest of the claim holds: whatever
  the loop returns lies between 1 and 5 (lemma \<open>read_choice_accepts_1_to_5\<close>), and on the
  two lines \<^verbatim>\<open>7\<close> and \<^verbatim>\<open>3\<close> it refuses the first and accepts the second (lemma
  \<open>selection_accepts\<close>).
\<close>

theorem selection_hangs_at_end_of_input:
  "scanf_d always_max ''abc'' = (NoMatch, ''abc'') \<and> flush_line ''abc'' = None
   \<and> read_choice always_max ''abc'' io0 = None \<and> main always_max ''abc'' io0 = None"
proof -
  have scan: "scanf_d env ''abc'' = (NoMatch, ''abc'')" for env
    by (simp add: scanf_d_def isspace_def isdigit_def)
  have flush: "flush_line ''abc'' = None"
    by (rule flush_line_hangs) simp
  have "read_choice env ''abc'' io = None" for env io
    by (subst read_choice.simps) (simp add: scan flush)
  then show ?thesis
    using scan flush by (simp add: main_def)
qed

subsection \<open>C10: a failed allocation\<close>



end
